theory Spec2Isabelle
  imports Complex_Main "HOL-Library.Sublist" "HOL-Library.AList"
begin

section \<open>JavaScript strings\<close>

text \<open>
  A JavaScript string is modelled as a \<^typ>\<open>string\<close>, one \<^typ>\<open>char\<close> per code unit in the
  range 0..255. In that range the regular-expression class \<^verbatim>\<open>\s\<close> (and \<^verbatim>\<open>trim\<close>) covers
  the code units 9..13, 32 and 160, the class \<^verbatim>\<open>\w\<close> is \<^verbatim>\<open>[A-Za-z0-9_]\<close>, and
  \<^verbatim>\<open>toLowerCase\<close> moves \<^verbatim>\<open>A-Z\<close> and the Latin-1 capitals 192..222 (without the
  multiplication sign 215) up by 32.
\<close>

definition is_space :: "char \<Rightarrow> bool" where
  "is_space c = (let n = (of_char c :: nat) in (9 \<le> n \<and> n \<le> 13) \<or> n = 32 \<or> n = 160)"

definition is_word_char :: "char \<Rightarrow> bool" where
  "is_word_char c = (let n = (of_char c :: nat) in
     (48 \<le> n \<and> n \<le> 57) \<or> (65 \<le> n \<and> n \<le> 90) \<or> n = 95 \<or> (97 \<le> n \<and> n \<le> 122))"

definition lower_char :: "char \<Rightarrow> char" where
  "lower_char c = (let n = (of_char c :: nat) in
     if (65 \<le> n \<and> n \<le> 90) \<or> (192 \<le> n \<and> n \<le> 222 \<and> n \<noteq> 215) then char_of (n + 32) else c)"

definition toLowerCase :: "string \<Rightarrow> string" where
  "toLowerCase s = map lower_char s"

definition is_digit :: "char \<Rightarrow> bool" where
  "is_digit c = (let n = (of_char c :: nat) in 48 \<le> n \<and> n \<le> 57)"

definition is_line_char :: "char \<Rightarrow> bool" where
  "is_line_char c = (c \<noteq> CHR 0x0A \<and> c \<noteq> CHR 0x0D)"


section \<open>Regular expressions\<close>

text \<open>
  Every pattern of the library is a sequence of literals and of quantified character
  classes, some of them captured. A pattern is a list of items; matching one item at the
  head of the input offers its ways of consuming a prefix in the order in which a
  backtracking matcher tries them (longest first for a greedy quantifier, shortest first
  for a lazy one), and the first way under which the rest of the pattern matches wins.
  \<open>match_here\<close> matches at the start of the input (a pattern anchored by \<^verbatim>\<open>^\<close>) and returns
  the captures and the unread input; \<open>regex_search\<close> tries every start position from the
  left, as \<^verbatim>\<open>String.prototype.match\<close> and \<^verbatim>\<open>RegExp.prototype.exec\<close> do.
\<close>

datatype atom =
    Lit string
  | Star "char \<Rightarrow> bool"
  | Plus "char \<Rightarrow> bool"
  | LazyStar "char \<Rightarrow> bool"
  | LazyPlus "char \<Rightarrow> bool"
  | Exactly nat "char \<Rightarrow> bool"
  | EndOfInput

datatype item = Match atom | Capture atom

fun atom_of :: "item \<Rightarrow> atom" where
  "atom_of (Match a) = a"
| "atom_of (Capture a) = a"

definition cuts :: "nat list \<Rightarrow> string \<Rightarrow> (string \<times> string) list" where
  "cuts ks s = map (\<lambda>k. (take k s, drop k s)) ks"

fun splits :: "atom \<Rightarrow> string \<Rightarrow> (string \<times> string) list" where
  "splits (Lit l) s = (if take (length l) s = l then [(l, drop (length l) s)] else [])"
| "splits (Star p) s = cuts (rev [0 ..< Suc (length (takeWhile p s))]) s"
| "splits (Plus p) s = cuts (rev [1 ..< Suc (length (takeWhile p s))]) s"
| "splits (LazyStar p) s = cuts [0 ..< Suc (length (takeWhile p s))] s"
| "splits (LazyPlus p) s = cuts [1 ..< Suc (length (takeWhile p s))] s"
| "splits (Exactly n p) s = (if n \<le> length (takeWhile p s) then [(take n s, drop n s)] else [])"
| "splits EndOfInput s = (if s = [] then [([], [])] else [])"

fun first_some :: "('a \<Rightarrow> 'b option) \<Rightarrow> 'a list \<Rightarrow> 'b option" where
  "first_some f [] = None"
| "first_some f (x # xs) = (case f x of Some y \<Rightarrow> Some y | None \<Rightarrow> first_some f xs)"

primrec match_here :: "item list \<Rightarrow> string \<Rightarrow> (string list \<times> string) option" where
  "match_here [] s = Some ([], s)"
| "match_here (it # its) s =
     first_some
       (\<lambda>(u, r). case match_here its r of
                    None \<Rightarrow> None
                  | Some (caps, rest) \<Rightarrow>
                      Some (case it of Capture _ \<Rightarrow> u # caps | Match _ \<Rightarrow> caps, rest))
       (splits (atom_of it) s)"

fun regex_search :: "item list \<Rightarrow> string \<Rightarrow> (string list \<times> string) option" where
  "regex_search pat [] = match_here pat []"
| "regex_search pat (c # cs) =
     (case match_here pat (c # cs) of Some m \<Rightarrow> Some m | None \<Rightarrow> regex_search pat cs)"


section \<open>Day numbers and calendar dates\<close>

text \<open>
  The date arithmetic of the language standard, on day numbers (days since 1 January
  1970): \<open>DayFromYear\<close>, \<open>DaysInYear\<close>, \<open>MakeDay\<close>, and the decoders of a day number into
  year, month (0-based) and day of the month. The standard defines the year of a day as
  the largest \<open>y\<close> with \<open>DayFromYear y \<le> d\<close>; \<open>YearFromDay\<close> finds it by searching downwards
  from an upper estimate, and \<open>YearFromDay_bounds\<close> with \<open>YearFromDay_unique\<close> show that it
  is that year.
\<close>

definition msPerDay :: int where
  "msPerDay = 86400000"

lemma div_step:
  fixes x k :: int
  assumes k: "0 < k"
  shows "(x + 1) div k = x div k + (if k dvd (x + 1) then 1 else 0)"
proof -
  define q where "q = x div k"
  define r where "r = x mod k"
  have x: "x = k * q + r" and r0: "0 \<le> r" and rk: "r < k"
    using k by (simp_all add: q_def r_def)
  show ?thesis
  proof (cases "r + 1 = k")
    case True
    then have e: "x + 1 = k * (q + 1) + 0" using x by (simp add: algebra_simps)
    have "(x + 1) div k = q + 1"
      by (rule int_div_pos_eq [OF e]) (use k in simp_all)
    moreover have "k dvd (x + 1)" using e by simp
    ultimately show ?thesis by (simp add: q_def)
  next
    case False
    with rk have lt: "r + 1 < k" by simp
    have e: "x + 1 = k * q + (r + 1)" using x by simp
    have d: "(x + 1) div k = q"
      by (rule int_div_pos_eq [OF e]) (use r0 lt in simp_all)
    have m: "(x + 1) mod k = r + 1"
      by (rule int_mod_pos_eq [OF e]) (use r0 lt in simp_all)
    from m r0 have "\<not> k dvd (x + 1)" by (simp add: dvd_eq_mod_eq_0)
    with d show ?thesis by (simp add: q_def)
  qed
qed

definition DaysInYear :: "int \<Rightarrow> int" where
  "DaysInYear y = (if y mod 4 \<noteq> 0 then 365 else if y mod 100 \<noteq> 0 then 366
                   else if y mod 400 \<noteq> 0 then 365 else 366)"

definition DayFromYear :: "int \<Rightarrow> int" where
  "DayFromYear y = 365 * (y - 1970) + (y - 1969) div 4 - (y - 1901) div 100 + (y - 1601) div 400"

lemma DayFromYear_step: "DayFromYear (y + 1) = DayFromYear y + DaysInYear y"
proof -
  have a: "(y + 1 - 1969) div 4 = (y - 1969) div 4 + (if 4 dvd y then 1 else 0)"
    using div_step [of 4 "y - 1969"] dvd_diff_left_iff [of 4 1968 y] by simp
  have b: "(y + 1 - 1901) div 100 = (y - 1901) div 100 + (if 100 dvd y then 1 else 0)"
    using div_step [of 100 "y - 1901"] dvd_diff_left_iff [of 100 1900 y] by simp
  have c: "(y + 1 - 1601) div 400 = (y - 1601) div 400 + (if 400 dvd y then 1 else 0)"
    using div_step [of 400 "y - 1601"] dvd_diff_left_iff [of 400 1600 y] by simp
  have d1: "100 dvd y \<Longrightarrow> 4 dvd y"
    using dvd_trans [of 4 100 y] by simp
  have d2: "400 dvd y \<Longrightarrow> 100 dvd y"
    using dvd_trans [of 100 400 y] by simp
  have days: "DaysInYear y = 365 + (if 4 dvd y then 1 else 0) - (if 100 dvd y then 1 else 0)
      + (if 400 dvd y then 1 else 0)"
    using d1 d2 by (simp add: DaysInYear_def mod_eq_0_iff_dvd)
  show ?thesis
    unfolding DayFromYear_def days a b c by (simp only: algebra_simps)
qed

lemma DaysInYear_pos: "365 \<le> DaysInYear y" "DaysInYear y \<le> 366"
  by (simp_all add: DaysInYear_def)

lemma DayFromYear_pred: "DayFromYear (y - 1) < DayFromYear y"
  using DayFromYear_step [of "y - 1"] DaysInYear_pos(1) [of "y - 1"] by simp

function year_search :: "int \<Rightarrow> int \<Rightarrow> int" where
  "year_search y d = (if DayFromYear y \<le> d then y else year_search (y - 1) d)"
  by pat_completeness auto
termination
proof (relation "measure (\<lambda>(y, d). nat (DayFromYear y - d))")
  show "wf (measure (\<lambda>(y, d). nat (DayFromYear y - d)))" by simp
next
  fix y d :: int
  assume "\<not> DayFromYear y \<le> d"
  then show "((y - 1, d), (y, d)) \<in> measure (\<lambda>(y, d). nat (DayFromYear y - d))"
    using DayFromYear_pred [of y] by simp
qed

definition YearFromDay :: "int \<Rightarrow> int" where
  "YearFromDay d = year_search (1970 + max 0 (d div 365)) d"


lemma DayFromYear_mono: "y \<le> y' \<Longrightarrow> DayFromYear y \<le> DayFromYear y'"
proof (induction y' rule: int_ge_induct)
  case base
  show ?case by simp
next
  case (step i)
  then show ?case
    using DayFromYear_step [of i] DaysInYear_pos(1) [of i] by simp
qed

lemma DayFromYear_strict: "y < y' \<Longrightarrow> DayFromYear y + DaysInYear y \<le> DayFromYear y'"
  using DayFromYear_mono [of "y + 1" y'] DayFromYear_step [of y] by simp

lemma DayFromYear_lower: "1970 \<le> y \<Longrightarrow> 365 * (y - 1970) \<le> DayFromYear y"
proof (induction y rule: int_ge_induct)
  case base
  show ?case by (simp add: DayFromYear_def)
next
  case (step i)
  then show ?case
    using DayFromYear_step [of i] DaysInYear_pos(1) [of i] by simp
qed


declare year_search.simps [simp del]

lemma year_search_le: "DayFromYear (year_search y d) \<le> d"
proof (induction y d rule: year_search.induct)
  case (1 y d)
  then show ?case by (subst year_search.simps) simp
qed

lemma year_search_gt: "d < DayFromYear (y + 1) \<Longrightarrow> d < DayFromYear (year_search y d + 1)"
proof (induction y d rule: year_search.induct)
  case (1 y d)
  show ?case
  proof (cases "DayFromYear y \<le> d")
    case True
    with 1(2) show ?thesis by (subst year_search.simps) simp
  next
    case False
    with 1(1) have "d < DayFromYear (year_search (y - 1) d + 1)" by simp
    with False show ?thesis by (subst year_search.simps) simp
  qed
qed


lemma YearFromDay_bounds:
  "DayFromYear (YearFromDay d) \<le> d" "d < DayFromYear (YearFromDay d + 1)"
proof -
  show "DayFromYear (YearFromDay d) \<le> d"
    unfolding YearFromDay_def by (rule year_search_le)
  define q where "q = d div 365"
  define r where "r = d mod 365"
  let ?y0 = "1970 + max 0 q"
  have "d = 365 * q + r" "r < 365" by (simp_all add: q_def r_def)
  then have "d < 365 * (q + 1)" by simp
  also have "\<dots> \<le> 365 * (max 0 q + 1)" by simp
  also have "\<dots> = 365 * (?y0 + 1 - 1970)" by simp
  also have "\<dots> \<le> DayFromYear (?y0 + 1)" by (rule DayFromYear_lower) simp
  finally show "d < DayFromYear (YearFromDay d + 1)"
    unfolding YearFromDay_def q_def by (rule year_search_gt)
qed

lemma YearFromDay_unique:
  assumes "DayFromYear y \<le> d" "d < DayFromYear (y + 1)"
  shows "YearFromDay d = y"
proof (rule ccontr)
  assume ne: "YearFromDay d \<noteq> y"
  let ?z = "YearFromDay d"
  show False
  proof (cases "?z < y")
    case True
    then have "DayFromYear (?z + 1) \<le> DayFromYear y" by (intro DayFromYear_mono) simp
    with YearFromDay_bounds(2) [of d] assms(1) show False by simp
  next
    case False
    with ne have "y + 1 \<le> ?z" by simp
    then have "DayFromYear (y + 1) \<le> DayFromYear ?z" by (rule DayFromYear_mono)
    with YearFromDay_bounds(1) [of d] assms(2) show False by simp
  qed
qed

definition InLeapYear :: "int \<Rightarrow> int" where
  "InLeapYear y = (if DaysInYear y = 366 then 1 else 0)"

definition month_start :: "int \<Rightarrow> int \<Rightarrow> int" where
  "month_start l m =
     (if m = 0 then 0 else if m = 1 then 31 else if m = 2 then 59 + l
      else if m = 3 then 90 + l else if m = 4 then 120 + l else if m = 5 then 151 + l
      else if m = 6 then 181 + l else if m = 7 then 212 + l else if m = 8 then 243 + l
      else if m = 9 then 273 + l else if m = 10 then 304 + l else 334 + l)"

definition month_of :: "int \<Rightarrow> int \<Rightarrow> int" where
  "month_of l w =
     (if w < 31 then 0 else if w < 59 + l then 1 else if w < 90 + l then 2
      else if w < 120 + l then 3 else if w < 151 + l then 4 else if w < 181 + l then 5
      else if w < 212 + l then 6 else if w < 243 + l then 7 else if w < 273 + l then 8
      else if w < 304 + l then 9 else if w < 334 + l then 10 else 11)"

definition MonthFromDay :: "int \<Rightarrow> int" where
  "MonthFromDay d = (let y = YearFromDay d in month_of (InLeapYear y) (d - DayFromYear y))"

definition DateFromDay :: "int \<Rightarrow> int" where
  "DateFromDay d =
     (let y = YearFromDay d in
      d - DayFromYear y - month_start (InLeapYear y) (MonthFromDay d) + 1)"

definition MakeDay :: "int \<Rightarrow> int \<Rightarrow> int \<Rightarrow> int" where
  "MakeDay year month date =
     (let ym = year + month div 12; mn = month mod 12 in
      DayFromYear ym + month_start (InLeapYear ym) mn + date - 1)"

definition month_len :: "int \<Rightarrow> int \<Rightarrow> int" where
  "month_len l m =
     (if m = 1 then 28 + l else if m = 3 \<or> m = 5 \<or> m = 8 \<or> m = 10 then 30 else 31)"

definition DaysInMonth :: "int \<Rightarrow> int \<Rightarrow> int" where
  "DaysInMonth y m = month_len (InLeapYear y) m"

lemma month_cases:
  "0 \<le> m \<Longrightarrow> m \<le> 11 \<Longrightarrow>
   (m::int) = 0 \<or> m = 1 \<or> m = 2 \<or> m = 3 \<or> m = 4 \<or> m = 5 \<or> m = 6 \<or> m = 7 \<or> m = 8 \<or> m = 9 \<or> m = 10 \<or> m = 11"
  by arith

lemma InLeapYear_cases: "InLeapYear y = 0 \<and> DaysInYear y = 365 \<or> InLeapYear y = 1 \<and> DaysInYear y = 366"
  by (simp add: InLeapYear_def DaysInYear_def)

lemma month_start_within:
  assumes "l = 0 \<or> l = 1" "0 \<le> m" "m \<le> 11" "1 \<le> dt" "dt \<le> month_len l m"
  shows "0 \<le> month_start l m + dt - 1" "month_start l m + dt - 1 < 365 + l"
    and "month_of l (month_start l m + dt - 1) = m"
  using month_cases [OF assms(2,3)] assms(1,4,5)
  by (elim disjE; simp add: month_start_def month_len_def month_of_def)+

lemma month_of_range:
  assumes "l = 0 \<or> l = 1" "0 \<le> w" "w < 365 + l"
  shows "0 \<le> month_of l w" "month_of l w \<le> 11"
    and "1 \<le> w - month_start l (month_of l w) + 1"
    and "w - month_start l (month_of l w) + 1 \<le> month_len l (month_of l w)"
  using assms by (auto simp: month_of_def month_start_def month_len_def)

lemma MakeDay_roundtrip:
  assumes m: "0 \<le> m" "m \<le> 11" and dt: "1 \<le> dt" "dt \<le> DaysInMonth y m"
  shows "YearFromDay (MakeDay y m dt) = y"
    and "MonthFromDay (MakeDay y m dt) = m"
    and "DateFromDay (MakeDay y m dt) = dt"
proof -
  let ?l = "InLeapYear y"
  let ?w = "month_start ?l m + dt - 1"
  have l: "?l = 0 \<or> ?l = 1" using InLeapYear_cases [of y] by auto
  have dy: "DaysInYear y = 365 + ?l" using InLeapYear_cases [of y] by auto
  have dt': "dt \<le> month_len ?l m" using dt by (simp add: DaysInMonth_def)
  have md: "MakeDay y m dt = DayFromYear y + ?w"
    using m by (simp add: MakeDay_def)
  note w = month_start_within [OF l m dt(1) dt']
  show y: "YearFromDay (MakeDay y m dt) = y"
    unfolding md using w(1,2) by (intro YearFromDay_unique) (simp_all add: DayFromYear_step dy)
  have dw: "MakeDay y m dt - DayFromYear y = ?w" by (simp add: md)
  show mo: "MonthFromDay (MakeDay y m dt) = m"
    by (simp only: MonthFromDay_def y Let_def dw w(3))
  show "DateFromDay (MakeDay y m dt) = dt"
    unfolding DateFromDay_def Let_def y mo dw by simp
qed

lemma decode_ranges:
  "0 \<le> MonthFromDay d" "MonthFromDay d \<le> 11"
  "1 \<le> DateFromDay d" "DateFromDay d \<le> DaysInMonth (YearFromDay d) (MonthFromDay d)"
proof -
  let ?y = "YearFromDay d"
  let ?l = "InLeapYear ?y"
  let ?w = "d - DayFromYear ?y"
  have l: "?l = 0 \<or> ?l = 1" using InLeapYear_cases [of ?y] by auto
  have dy: "DaysInYear ?y = 365 + ?l" using InLeapYear_cases [of ?y] by auto
  have w: "0 \<le> ?w" "?w < 365 + ?l"
    using YearFromDay_bounds [of d] DayFromYear_step [of ?y] dy by simp_all
  note r = month_of_range [OF l w]
  show "0 \<le> MonthFromDay d" "MonthFromDay d \<le> 11"
    using r(1,2) by (simp_all add: MonthFromDay_def Let_def)
  show "1 \<le> DateFromDay d"
    using r(3) by (simp add: DateFromDay_def MonthFromDay_def Let_def)
  show "DateFromDay d \<le> DaysInMonth (YearFromDay d) (MonthFromDay d)"
    using r(4) by (simp add: DateFromDay_def MonthFromDay_def DaysInMonth_def Let_def)
qed

section \<open>JavaScript numbers, values and Date objects\<close>

text \<open>
  Numbers are modelled as exact integers together with \<open>NaN\<close> and the two infinities.
  (The integers agree with the floating-point numbers of the language below \<open>2^53\<close>,
  and \<open>parseInt\<close> of a number is modelled for integers of magnitude below \<open>10^21\<close>, which
  print in plain decimal.) A Date object is its time value: milliseconds since the epoch,
  or \<open>NaN\<close> for an invalid date. Local time is taken to be at a constant offset from UTC,
  so that the local-time constructor and the local-time getters cancel.
\<close>

datatype jsnum = Num int | NaN | PosInfinity | NegInfinity

datatype jsval = JUndefined | JNull | JBool bool | JNumber jsnum | JStr string


fun strict_eq :: "jsnum \<Rightarrow> jsnum \<Rightarrow> bool" where
  "strict_eq NaN _ = False"
| "strict_eq _ NaN = False"
| "strict_eq a b = (a = b)"

text \<open>
  \<^verbatim>\<open>parseInt(v, 10)\<close>: leading white space, an optional sign, then the longest run of
  decimal digits; \<open>NaN\<close> when there is no digit. A value that is not a string is
  converted to a string first.
\<close>

definition digit_value :: "char \<Rightarrow> int" where
  "digit_value c = int (of_char c) - 48"

definition decimal :: "string \<Rightarrow> int" where
  "decimal ds = foldl (\<lambda>acc c. 10 * acc + digit_value c) 0 ds"

definition parseInt_string :: "string \<Rightarrow> jsnum" where
  "parseInt_string s =
     (let t = dropWhile is_space s;
          (sign, u) = (case t of
                         c # cs \<Rightarrow> if c = CHR ''-'' then (- 1, cs)
                                   else if c = CHR ''+'' then (1, cs) else (1, t)
                       | [] \<Rightarrow> (1, t));
          ds = takeWhile is_digit u
      in if ds = [] then NaN else Num (sign * decimal ds))"

fun parseInt :: "jsval \<Rightarrow> jsnum" where
  "parseInt (JStr s) = parseInt_string s"
| "parseInt (JNumber (Num n)) = Num n"
| "parseInt _ = NaN"

text \<open>
  \<^verbatim>\<open>new Date(year, monthIndex, day)\<close>: a year from 0 to 99 stands for 1900 + year, and a time
  value beyond the range of the standard is invalid. The getters \<^verbatim>\<open>getFullYear\<close>,
  \<^verbatim>\<open>getMonth\<close> and \<^verbatim>\<open>getDate\<close> decode the day number of the time value.
\<close>

definition TimeClip :: "int \<Rightarrow> jsnum" where
  "TimeClip t = (if 8640000000000000 < \<bar>t\<bar> then NaN else Num t)"

fun Date_components :: "jsnum \<Rightarrow> jsnum \<Rightarrow> jsnum \<Rightarrow> jsnum" where
  "Date_components (Num y) (Num m) (Num dt) =
     (let yr = (if 0 \<le> y \<and> y \<le> 99 then 1900 + y else y)
      in TimeClip (MakeDay yr m dt * msPerDay))"
| "Date_components _ _ _ = NaN"

fun getFullYear :: "jsnum \<Rightarrow> jsnum" where
  "getFullYear (Num t) = Num (YearFromDay (t div msPerDay))"
| "getFullYear _ = NaN"

fun getMonth :: "jsnum \<Rightarrow> jsnum" where
  "getMonth (Num t) = Num (MonthFromDay (t div msPerDay))"
| "getMonth _ = NaN"

fun getDate :: "jsnum \<Rightarrow> jsnum" where
  "getDate (Num t) = Num (DateFromDay (t div msPerDay))"
| "getDate _ = NaN"

fun minus_one :: "jsnum \<Rightarrow> jsnum" where
  "minus_one (Num n) = Num (n - 1)"
| "minus_one x = x"


section \<open>BlogParser\<close>

subsection \<open>BlogParser.generateSlug\<close>

text \<open>
  \<^verbatim>\<open>title.toLowerCase().replace(/[^\w\s-]/g, '').replace(/\s+/g, '-').replace(/--+/g, '-').trim()\<close>

  A global \<^verbatim>\<open>replace\<close> whose pattern is a run of at least \<open>n\<close> characters of one class
  scans from the left and replaces every maximal run that is long enough:
  \<open>replace_runs\<close>. Removing single characters of a class is a \<^const>\<open>filter\<close>.
\<close>

function replace_runs :: "(char \<Rightarrow> bool) \<Rightarrow> nat \<Rightarrow> string \<Rightarrow> string \<Rightarrow> string" where
  "replace_runs p n r [] = []"
| "replace_runs p n r (c # cs) =
     (let k = length (takeWhile p (c # cs)) in
      if 0 < k \<and> n \<le> k then r @ replace_runs p n r (drop k (c # cs))
      else c # replace_runs p n r cs)"
  by pat_completeness auto
termination
  by (relation "measure (\<lambda>(p, n, r, s). length s)") auto

definition trim :: "string \<Rightarrow> string" where
  "trim s = rev (dropWhile is_space (rev (dropWhile is_space s)))"

definition generateSlug :: "string \<Rightarrow> string" where
  "generateSlug title =
     trim (replace_runs (\<lambda>c. c = CHR ''-'') 2 ''-''
       (replace_runs is_space 1 ''-''
         (filter (\<lambda>c. is_word_char c \<or> is_space c \<or> c = CHR ''-'') (toLowerCase title))))"
























subsection \<open>BlogParser.isValidDate\<close>

text \<open>
  \<^verbatim>\<open>/^(\d{4})-(\d{2})-(\d{2})$/\<close>, the pattern of \<open>isValidDate\<close> and of \<open>getByDate\<close>, and
  the check: not a non-empty string, or no match, is invalid; otherwise the three numbers
  must come back from a Date object built from them.
\<close>

definition dateRegex :: "item list" where
  "dateRegex = [Capture (Exactly 4 is_digit), Match (Lit ''-''), Capture (Exactly 2 is_digit),
                Match (Lit ''-''), Capture (Exactly 2 is_digit), Match EndOfInput]"

definition isValidDate :: "jsval \<Rightarrow> bool" where
  "isValidDate dateString =
     (case dateString of
        JStr s \<Rightarrow>
          if s = [] then False
          else (case match_here dateRegex s of
                  Some ([y, m, d], _) \<Rightarrow>
                    (let year = parseInt (JStr y);
                         month = parseInt (JStr m);
                         day = parseInt (JStr d);
                         testDate = Date_components year (minus_one month) day
                     in strict_eq (getFullYear testDate) year
                        \<and> strict_eq (getMonth testDate) (minus_one month)
                        \<and> strict_eq (getDate testDate) day)
                | _ \<Rightarrow> False)
      | _ \<Rightarrow> False)"


lemma prefix_run:
  "n \<le> length (takeWhile p s) \<longleftrightarrow> n \<le> length s \<and> list_all p (take n s)"
proof (induction s arbitrary: n)
  case Nil
  show ?case by simp
next
  case (Cons c cs)
  show ?case
  proof (cases n)
    case 0
    then show ?thesis by simp
  next
    case (Suc k)
    with Cons [of k] show ?thesis by auto
  qed
qed

lemma splits_Exactly:
  "splits (Exactly n p) s =
     (if n \<le> length s \<and> list_all p (take n s) then [(take n s, drop n s)] else [])"
  by (simp add: prefix_run)

lemma dateRegex_match:
  assumes "length y = 4" "length m = 2" "length d = 2" "list_all is_digit (y @ m @ d)"
  shows "match_here dateRegex (y @ ''-'' @ m @ ''-'' @ d) = Some ([y, m, d], [])"
  using assms by (simp add: dateRegex_def splits_Exactly del: splits.simps(6))

lemma dateRegex_shape:
  assumes "match_here dateRegex s = Some (caps, r)"
  shows "\<exists>y m d. caps = [y, m, d] \<and> r = [] \<and> s = y @ ''-'' @ m @ ''-'' @ d
           \<and> length y = 4 \<and> length m = 2 \<and> length d = 2 \<and> list_all is_digit (y @ m @ d)"
proof -
  let ?y = "take 4 s" and ?s1 = "drop 4 s"
  let ?s2 = "drop 1 ?s1"
  let ?m = "take 2 ?s2" and ?s3 = "drop 2 ?s2"
  let ?s4 = "drop 1 ?s3"
  let ?d = "take 2 ?s4"
  from assms have c: "4 \<le> length s" "list_all is_digit ?y" "take 1 ?s1 = ''-''"
    "2 \<le> length ?s2" "list_all is_digit ?m" "take 1 ?s3 = ''-''"
    "2 \<le> length ?s4" "list_all is_digit ?d" "drop 2 ?s4 = []"
    "caps = [?y, ?m, ?d]" "r = []"
    by (auto simp: dateRegex_def splits_Exactly simp del: splits.simps(6) split: if_splits)
  have "s = ?y @ ?s1" by simp
  also have "?s1 = take 1 ?s1 @ ?s2" by (simp only: append_take_drop_id)
  also have "?s2 = ?m @ ?s3" by (simp only: append_take_drop_id)
  also have "?s3 = take 1 ?s3 @ ?s4" by (simp only: append_take_drop_id)
  also have "?s4 = ?d" using c(9) by (metis append_take_drop_id append_Nil2)
  finally have "s = ?y @ ''-'' @ ?m @ ''-'' @ ?d" using c(3,6) by simp
  moreover have "length ?y = 4" "length ?m = 2" "length ?d = 2" using c(1,4,7) by simp_all
  ultimately show ?thesis using c(2,5,8,10,11) by (intro exI [of _ ?y] exI [of _ ?m] exI [of _ ?d]) simp
qed


lemma digit_value_range: "is_digit c \<Longrightarrow> 0 \<le> digit_value c \<and> digit_value c \<le> 9"
  by (auto simp: is_digit_def digit_value_def Let_def)

lemma decimal_snoc: "decimal (ds @ [c]) = 10 * decimal ds + digit_value c"
  by (simp add: decimal_def)

lemma decimal_range: "list_all is_digit ds \<Longrightarrow> 0 \<le> decimal ds \<and> decimal ds < 10 ^ length ds"
proof (induction ds rule: rev_induct)
  case Nil
  show ?case by (simp add: decimal_def)
next
  case (snoc c ds)
  then have "0 \<le> decimal ds" "decimal ds + 1 \<le> 10 ^ length ds" by simp_all
  moreover from snoc.prems have "0 \<le> digit_value c \<and> digit_value c \<le> 9"
    using digit_value_range by simp
  ultimately show ?case by (simp add: decimal_snoc)
qed

lemma digit_not_space: "is_digit c \<Longrightarrow> \<not> is_space c \<and> c \<noteq> CHR ''-'' \<and> c \<noteq> CHR ''+''"
  by (auto simp: is_digit_def is_space_def Let_def)

lemma parseInt_digits:
  assumes "list_all is_digit ds" "ds \<noteq> []"
  shows "parseInt (JStr ds) = Num (decimal ds)"
proof -
  from assms obtain c cs where ds: "ds = c # cs" by (cases ds) auto
  with assms have c: "is_digit c" by simp
  have tw: "takeWhile is_digit ds = ds"
    using assms(1) by (simp add: list_all_iff)
  from c have dw: "dropWhile is_space ds = ds" using digit_not_space ds by simp
  have sign: "(case ds of
                 c # cs \<Rightarrow> if c = CHR ''-'' then (- 1, cs)
                           else if c = CHR ''+'' then (1, cs) else (1, ds)
               | [] \<Rightarrow> (1, ds)) = (1 :: int, ds)"
    using digit_not_space [OF c] by (simp add: ds)
  show ?thesis
    unfolding parseInt.simps parseInt_string_def Let_def dw sign
    by (simp add: tw assms(2))
qed


lemma DayFromYear_99: "- 683369 \<le> DayFromYear 99" and DayFromYear_10008: "DayFromYear 10008 \<le> 2936014"
  by (simp_all add: DayFromYear_def)

lemma month_start_range: "l = 0 \<or> l = 1 \<Longrightarrow> 0 \<le> month_start l m \<and> month_start l m \<le> 335"
  by (auto simp: month_start_def)

lemma MakeDay_range:
  assumes "100 \<le> yr" "yr \<le> 9999" "- 1 \<le> m" "m \<le> 98" "0 \<le> dt" "dt \<le> 99"
  shows "\<bar>MakeDay yr m dt * msPerDay\<bar> \<le> 8640000000000000"
proof -
  let ?ym = "yr + m div 12"
  have "- 1 \<le> m div 12" "m div 12 \<le> 8" using assms(3,4) by simp_all
  then have ym: "99 \<le> ?ym" "?ym \<le> 10008" using assms(1,2) by simp_all
  have lo: "- 683369 \<le> DayFromYear ?ym"
    using DayFromYear_mono [OF ym(1)] DayFromYear_99 by simp
  have hi: "DayFromYear ?ym \<le> 2936014"
    using DayFromYear_mono [OF ym(2)] DayFromYear_10008 by simp
  have "InLeapYear ?ym = 0 \<or> InLeapYear ?ym = 1" using InLeapYear_cases [of ?ym] by auto
  then have ms: "0 \<le> month_start (InLeapYear ?ym) (m mod 12)" "month_start (InLeapYear ?ym) (m mod 12) \<le> 335"
    using month_start_range by simp_all
  have "- 683370 \<le> MakeDay yr m dt" "MakeDay yr m dt \<le> 2936448"
    using lo hi ms assms(5,6) by (simp_all add: MakeDay_def Let_def)
  then show ?thesis by (simp add: msPerDay_def abs_le_iff)
qed

definition real_calendar_date :: "int \<Rightarrow> int \<Rightarrow> int \<Rightarrow> bool" where
  "real_calendar_date y m d \<longleftrightarrow> 1 \<le> m \<and> m \<le> 12 \<and> 1 \<le> d \<and> d \<le> DaysInMonth y (m - 1)"

lemma local_date_check:
  assumes "0 \<le> y" "y \<le> 9999" "0 \<le> m" "m \<le> 99" "0 \<le> dt" "dt \<le> 99"
  defines "testDate \<equiv> Date_components (Num y) (Num (m - 1)) (Num dt)"
  shows "strict_eq (getFullYear testDate) (Num y) \<and> strict_eq (getMonth testDate) (Num (m - 1))
           \<and> strict_eq (getDate testDate) (Num dt)
         \<longleftrightarrow> 100 \<le> y \<and> real_calendar_date y m dt"
proof -
  let ?yr = "if 0 \<le> y \<and> y \<le> 99 then 1900 + y else y"
  let ?D = "MakeDay ?yr (m - 1) dt"
  have "\<bar>?D * msPerDay\<bar> \<le> 8640000000000000"
    by (rule MakeDay_range) (use assms(1-6) in auto)
  then have td: "testDate = Num (?D * msPerDay)"
    by (simp add: testDate_def TimeClip_def Let_def)
  have day: "?D * msPerDay div msPerDay = ?D" by (simp add: msPerDay_def)
  have lhs: "strict_eq (getFullYear testDate) (Num y) \<and> strict_eq (getMonth testDate) (Num (m - 1))
           \<and> strict_eq (getDate testDate) (Num dt)
       \<longleftrightarrow> YearFromDay ?D = y \<and> MonthFromDay ?D = m - 1 \<and> DateFromDay ?D = dt"
    unfolding td by (simp add: day)
  show ?thesis
  proof
    assume "strict_eq (getFullYear testDate) (Num y) \<and> strict_eq (getMonth testDate) (Num (m - 1))
           \<and> strict_eq (getDate testDate) (Num dt)"
    with lhs have dec: "YearFromDay ?D = y" "MonthFromDay ?D = m - 1" "DateFromDay ?D = dt" by simp_all
    from decode_ranges [of ?D] dec
    have r: "0 \<le> m - 1" "m - 1 \<le> 11" "1 \<le> dt" "dt \<le> DaysInMonth y (m - 1)" by simp_all
    have "100 \<le> y"
    proof (rule ccontr)
      assume "\<not> 100 \<le> y"
      with assms(1) have small: "0 \<le> y \<and> y \<le> 99" by simp
      then have D: "?D = DayFromYear (1900 + y) + month_start (InLeapYear (1900 + y)) (m - 1) + dt - 1"
        using r(1,2) by (simp add: MakeDay_def Let_def)
      have "InLeapYear (1900 + y) = 0 \<or> InLeapYear (1900 + y) = 1"
        using InLeapYear_cases [of "1900 + y"] by auto
      then have "0 \<le> month_start (InLeapYear (1900 + y)) (m - 1)" using month_start_range by simp
      with D r(3) have "DayFromYear (1900 + y) \<le> ?D" by simp
      moreover have "DayFromYear (y + 1) \<le> DayFromYear (1900 + y)" by (rule DayFromYear_mono) simp
      moreover have "?D < DayFromYear (y + 1)" using YearFromDay_bounds(2) [of ?D] dec(1) by simp
      ultimately show False by simp
    qed
    with r show "100 \<le> y \<and> real_calendar_date y m dt" by (simp add: real_calendar_date_def)
  next
    assume a: "100 \<le> y \<and> real_calendar_date y m dt"
    then have yr: "?yr = y" by simp
    from a have r: "0 \<le> m - 1" "m - 1 \<le> 11" "1 \<le> dt" "dt \<le> DaysInMonth y (m - 1)"
      by (simp_all add: real_calendar_date_def)
    from MakeDay_roundtrip [OF r] lhs show "strict_eq (getFullYear testDate) (Num y)
        \<and> strict_eq (getMonth testDate) (Num (m - 1)) \<and> strict_eq (getDate testDate) (Num dt)"
      unfolding yr by simp
  qed
qed

definition date_string :: "string \<Rightarrow> string \<Rightarrow> string \<Rightarrow> string \<Rightarrow> bool" where
  "date_string s y m d \<longleftrightarrow>
     s = y @ ''-'' @ m @ ''-'' @ d \<and> length y = 4 \<and> length m = 2 \<and> length d = 2
     \<and> list_all is_digit (y @ m @ d)"


text \<open>
  What \<open>isValidDate\<close> accepts, exactly: the strings \<^verbatim>\<open>YYYY-MM-DD\<close> of digits whose
  components form a real calendar date and whose year is at least 100. The constructor
  \<^verbatim>\<open>new Date(year, month - 1, day)\<close> reads a year from 0 to 99 as 1900 + year, so the
  year read back differs from the one parsed.
\<close>

lemma isValidDate_iff:
  "isValidDate v \<longleftrightarrow>
     (\<exists>s y m d. v = JStr s \<and> date_string s y m d \<and> 100 \<le> decimal y
        \<and> real_calendar_date (decimal y) (decimal m) (decimal d))"
proof (cases v)
  case (JStr s)
  show ?thesis
  proof (cases "match_here dateRegex s")
    case None
    have "\<not> date_string s y m d" for y m d
      using dateRegex_match [of y m d] None by (auto simp: date_string_def)
    with None JStr show ?thesis by (simp add: isValidDate_def)
  next
    case (Some res)
    obtain caps r where res: "res = (caps, r)" by (cases res)
    from dateRegex_shape [OF Some [unfolded res]] obtain y m d
      where c: "caps = [y, m, d]" "r = []" and ds: "date_string s y m d"
      by (auto simp: date_string_def)
    have ne: "s \<noteq> []" using ds by (auto simp: date_string_def)
    have dig: "list_all is_digit y" "list_all is_digit m" "list_all is_digit d"
      "y \<noteq> []" "m \<noteq> []" "d \<noteq> []"
      using ds by (auto simp: date_string_def)
    note p = parseInt_digits [OF dig(1,4)] parseInt_digits [OF dig(2,5)] parseInt_digits [OF dig(3,6)]
    have rng: "0 \<le> decimal y" "decimal y \<le> 9999" "0 \<le> decimal m" "decimal m \<le> 99"
      "0 \<le> decimal d" "decimal d \<le> 99"
      using decimal_range [OF dig(1)] decimal_range [OF dig(2)] decimal_range [OF dig(3)] ds
      by (simp_all add: date_string_def)
    have uniq: "y' = y \<and> m' = m \<and> d' = d" if "date_string s y' m' d'" for y' m' d'
      using that ds by (auto simp: date_string_def)
    have "isValidDate v \<longleftrightarrow> 100 \<le> decimal y \<and> real_calendar_date (decimal y) (decimal m) (decimal d)"
      using local_date_check [OF rng] ne
      by (simp add: isValidDate_def JStr Some res c p Let_def del: parseInt.simps)
    also have "\<dots> \<longleftrightarrow> (\<exists>s' y' m' d'. v = JStr s' \<and> date_string s' y' m' d' \<and> 100 \<le> decimal y'
        \<and> real_calendar_date (decimal y') (decimal m') (decimal d'))"
      using ds uniq JStr by blast
    finally show ?thesis .
  qed
qed (simp_all add: isValidDate_def)

text \<open>
  Claim C9 says that every string of the form \<^verbatim>\<open>YYYY-MM-DD\<close> that denotes a real calendar
  date is accepted. The first of January of the year 50 is such a date, and the code
  rejects it.
\<close>

theorem isValidDate_two_digit_year:
  "date_string ''0050-01-01'' ''0050'' ''01'' ''01''
   \<and> real_calendar_date (decimal ''0050'') (decimal ''01'') (decimal ''01'')
   \<and> isValidDate (JStr ''0050-01-01'') = False"
  by code_simp

subsection \<open>Metadata extraction\<close>

text \<open>
  The metadata bag \<^verbatim>\<open>{date?, desc?, title?, extra: {}}\<close>. A field that was never
  assigned is \<open>None\<close> (\<^verbatim>\<open>undefined\<close>). The \<open>extra\<close> object is an association list;
  assigning a property is \<open>AList.update\<close>.
\<close>

record metadata =
  date :: "string option"
  desc :: "string option"
  title :: "string option"
  extra :: "(string \<times> string) list"

text \<open>
  \<^verbatim>\<open>/<!--\s*\[date:\s*(.+?)\]\s*-->/\<close>, \<^verbatim>\<open>/<!--\s*\[desc:\s*(.+?)\]\s*-->/\<close>,
  \<^verbatim>\<open>/<title>(.+?)<\/title>/\<close> and \<^verbatim>\<open>/<!--\s*\[(\w+):\s*(.+?)\]\s*-->/g\<close>.
\<close>

definition dateMatch :: "item list" where
  "dateMatch = [Match (Lit ''<!--''), Match (Star is_space), Match (Lit ''[date:''),
     Match (Star is_space), Capture (LazyPlus is_line_char), Match (Lit '']''),
     Match (Star is_space), Match (Lit ''-->'')]"

definition descMatch :: "item list" where
  "descMatch = [Match (Lit ''<!--''), Match (Star is_space), Match (Lit ''[desc:''),
     Match (Star is_space), Capture (LazyPlus is_line_char), Match (Lit '']''),
     Match (Star is_space), Match (Lit ''-->'')]"

definition titleMatch :: "item list" where
  "titleMatch = [Match (Lit ''<title>''), Capture (LazyPlus is_line_char), Match (Lit ''</title>'')]"

definition customMetaRegex :: "item list" where
  "customMetaRegex = [Match (Lit ''<!--''), Match (Star is_space), Match (Lit ''[''),
     Capture (Plus is_word_char), Match (Lit '':''), Match (Star is_space),
     Capture (LazyPlus is_line_char), Match (Lit '']''), Match (Star is_space), Match (Lit ''-->'')]"

text \<open>The first capture group of the first match, \<^verbatim>\<open>content.match(re)[1]\<close>, if there is a match.\<close>

definition first_group :: "item list \<Rightarrow> string \<Rightarrow> string option" where
  "first_group pat s = (case regex_search pat s of Some (g # _, _) \<Rightarrow> Some g | _ \<Rightarrow> None)"

text \<open>
  The loop \<^verbatim>\<open>while ((match = re.exec(content)) !== null)\<close> of a global pattern: each search
  starts where the previous match ended. A match that consumed nothing would keep the
  source in the loop forever; the recursion stops there instead, and \<open>customMeta_consumes\<close>
  shows that the pattern of the library never gets there.
\<close>

function exec_all :: "item list \<Rightarrow> string \<Rightarrow> string list list" where
  "exec_all pat s =
     (case regex_search pat s of
        None \<Rightarrow> []
      | Some (caps, rest) \<Rightarrow> if length rest < length s then caps # exec_all pat rest else [])"
  by pat_completeness auto
termination
  by (relation "measure (\<lambda>(pat, s). length s)") auto

declare exec_all.simps [simp del]

definition custom_entry :: "(string \<times> string) list \<Rightarrow> string list \<Rightarrow> (string \<times> string) list" where
  "custom_entry ex caps =
     (case caps of
        [key, v] \<Rightarrow> if key \<noteq> ''date'' \<and> key \<noteq> ''desc'' then AList.update key (trim v) ex else ex
      | _ \<Rightarrow> ex)"

definition parseHtmlCommentMetadata :: "string \<Rightarrow> metadata" where
  "parseHtmlCommentMetadata content =
     \<lparr> date = map_option trim (first_group dateMatch content),
       desc = map_option trim (first_group descMatch content),
       title = map_option trim (first_group titleMatch content),
       extra = foldl custom_entry [] (exec_all customMetaRegex content) \<rparr>"

text \<open>\<^verbatim>\<open>/^---\n([\s\S]*?)\n---/\<close>, and \<^verbatim>\<open>split\<close> at a separator character.\<close>

definition frontMatterRegex :: "item list" where
  "frontMatterRegex = [Match (Lit [CHR ''-'', CHR ''-'', CHR ''-'', CHR 0x0A]),
     Capture (LazyStar (\<lambda>c. True)), Match (Lit [CHR 0x0A, CHR ''-'', CHR ''-'', CHR ''-''])]"

fun String_split :: "char \<Rightarrow> string \<Rightarrow> string list" where
  "String_split sep [] = [[]]"
| "String_split sep (c # cs) =
     (if c = sep then [] # String_split sep cs
      else (case String_split sep cs of p # ps \<Rightarrow> (c # p) # ps | [] \<Rightarrow> [[c]]))"

definition front_matter_line :: "metadata \<Rightarrow> string \<Rightarrow> metadata" where
  "front_matter_line md line =
     (let colonIndex = length (takeWhile (\<lambda>c. c \<noteq> CHR '':'') line) in
      if colonIndex < length line \<and> 0 < colonIndex then
        (let key = trim (take colonIndex line);
             val = trim (drop (colonIndex + 1) line)
         in if key = ''date'' then md\<lparr>date := Some val\<rparr>
            else if key = ''title'' then md\<lparr>title := Some val\<rparr>
            else if key = ''description'' \<or> key = ''desc'' then md\<lparr>desc := Some val\<rparr>
            else md\<lparr>extra := AList.update key val (extra md)\<rparr>)
      else md)"

text \<open>\<^verbatim>\<open>v || d\<close> on a string or \<^verbatim>\<open>undefined\<close>: the empty string is falsy too.\<close>

definition or_default :: "string option \<Rightarrow> string \<Rightarrow> string" where
  "or_default v d = (case v of Some s \<Rightarrow> if s = [] then d else s | None \<Rightarrow> d)"

definition parseFrontMatterMetadata :: "string \<Rightarrow> metadata" where
  "parseFrontMatterMetadata content =
     (case match_here frontMatterRegex content of
        Some ([frontMatter], _) \<Rightarrow>
          (let md = foldl front_matter_line
                      \<lparr>date = None, desc = None, title = None, extra = []\<rparr>
                      (String_split (CHR 0x0A) frontMatter)
           in if or_default (title md) [] = [] then
                (case first_group titleMatch content of
                   Some t \<Rightarrow> md\<lparr>title := Some (trim t)\<rparr>
                 | None \<Rightarrow> md)
              else md)
      | _ \<Rightarrow> parseHtmlCommentMetadata content)"

subsection \<open>BlogParser.parseFile\<close>

text \<open>
  A blog record is a JavaScript object whose property values are strings: an association
  list; a property that is absent or \<^verbatim>\<open>undefined\<close> has no entry. The spread
  \<^verbatim>\<open>...metadata.extra\<close> at the end of the object literal assigns the entries of \<open>extra\<close> in
  order, over whatever the literal has set before.

  The file system is a record of the three calls the library makes; a call that throws
  returns \<open>Inl\<close>. \<^verbatim>\<open>path.join\<close> and \<^verbatim>\<open>path.basename\<close> are modelled for a directory and an
  entry name without separators.
\<close>

type_synonym blog = "(string \<times> string) list"

datatype error = Error string

record filesystem =
  existsSync :: "string \<Rightarrow> bool"
  readdirSync :: "string \<Rightarrow> error + string list"
  readFileSync :: "string \<Rightarrow> error + string"

record config =
  blogsDir :: string
  cacheEnabled :: bool
  sortOrder :: string
  metadataFormat :: string

definition path_join :: "string \<Rightarrow> string \<Rightarrow> string" where
  "path_join dir file = dir @ ''/'' @ file"

definition basename :: "string \<Rightarrow> string" where
  "basename p = rev (takeWhile (\<lambda>c. c \<noteq> CHR ''/'') (rev p))"

definition spread :: "blog \<Rightarrow> (string \<times> string) list \<Rightarrow> blog" where
  "spread obj ex = foldl (\<lambda>acc (k, v). AList.update k v acc) obj ex"

definition parseFile :: "config \<Rightarrow> filesystem \<Rightarrow> string \<Rightarrow> error + blog" where
  "parseFile cfg fs filePath =
     (let fileName = basename filePath in
      case readFileSync fs filePath of
        Inl e \<Rightarrow> Inl e
      | Inr fileContent \<Rightarrow>
          (let md = (if metadataFormat cfg = ''front-matter''
                     then parseFrontMatterMetadata fileContent
                     else parseHtmlCommentMetadata fileContent);
               parts = (if or_default (date md) [] \<noteq> []
                        then String_split (CHR ''-'') (or_default (date md) []) else []);
               ymd = (case parts of
                        [y, m, d] \<Rightarrow> [(''year'', y), (''month'', m), (''day'', d)]
                      | _ \<Rightarrow> [])
           in Inr (spread
                ([(''fileName'', fileName),
                  (''filePath'', filePath),
                  (''date'', or_default (date md) ''No date found''),
                  (''title'', or_default (title md) ''Untitled''),
                  (''desc'', or_default (desc md) ''No description available''),
                  (''content'', fileContent)]
                 @ ymd
                 @ [(''slug'', generateSlug (or_default (title md) fileName))])
                (extra md))))"

section \<open>BlogCache\<close>

subsection \<open>Number and array operations\<close>

fun js_minus :: "jsnum \<Rightarrow> jsnum \<Rightarrow> jsnum" where
  "js_minus (Num a) (Num b) = Num (a - b)"
| "js_minus NaN _ = NaN"
| "js_minus _ NaN = NaN"
| "js_minus PosInfinity PosInfinity = NaN"
| "js_minus NegInfinity NegInfinity = NaN"
| "js_minus PosInfinity _ = PosInfinity"
| "js_minus NegInfinity _ = NegInfinity"
| "js_minus _ PosInfinity = NegInfinity"
| "js_minus _ NegInfinity = PosInfinity"

fun js_plus :: "jsnum \<Rightarrow> jsnum \<Rightarrow> jsnum" where
  "js_plus (Num a) (Num b) = Num (a + b)"
| "js_plus NaN _ = NaN"
| "js_plus _ NaN = NaN"
| "js_plus PosInfinity NegInfinity = NaN"
| "js_plus NegInfinity PosInfinity = NaN"
| "js_plus PosInfinity _ = PosInfinity"
| "js_plus NegInfinity _ = NegInfinity"
| "js_plus _ PosInfinity = PosInfinity"
| "js_plus _ NegInfinity = NegInfinity"

fun js_sign :: "jsnum \<Rightarrow> int" where
  "js_sign (Num n) = sgn n"
| "js_sign PosInfinity = 1"
| "js_sign NegInfinity = - 1"
| "js_sign NaN = 0"

fun js_times :: "jsnum \<Rightarrow> jsnum \<Rightarrow> jsnum" where
  "js_times (Num a) (Num b) = Num (a * b)"
| "js_times NaN _ = NaN"
| "js_times _ NaN = NaN"
| "js_times a b =
     (if js_sign a * js_sign b = 0 then NaN
      else if 0 < js_sign a * js_sign b then PosInfinity else NegInfinity)"

fun js_less :: "jsnum \<Rightarrow> jsnum \<Rightarrow> bool" where
  "js_less (Num a) (Num b) = (a < b)"
| "js_less NaN _ = False"
| "js_less _ NaN = False"
| "js_less NegInfinity b = (b \<noteq> NegInfinity)"
| "js_less a PosInfinity = (a \<noteq> PosInfinity)"
| "js_less _ _ = False"

definition Math_min :: "jsnum \<Rightarrow> jsnum \<Rightarrow> jsnum" where
  "Math_min a b = (if a = NaN \<or> b = NaN then NaN else if js_less b a then b else a)"

definition Math_max :: "jsnum \<Rightarrow> jsnum \<Rightarrow> jsnum" where
  "Math_max a b = (if a = NaN \<or> b = NaN then NaN else if js_less a b then b else a)"

text \<open>\<^verbatim>\<open>Math.ceil(a / b)\<close> for integers \<open>a\<close> and \<open>b\<close>.\<close>

definition ceil_quotient :: "int \<Rightarrow> int \<Rightarrow> jsnum" where
  "ceil_quotient a b =
     (if b = 0 then (if a = 0 then NaN else if 0 < a then PosInfinity else NegInfinity)
      else Num (- ((- a) div b)))"

text \<open>
  \<^verbatim>\<open>Array.prototype.slice(start, end)\<close>: an index is truncated to an integer (\<open>NaN\<close> to 0), a
  negative one counts from the end, and both are clamped into the array.
\<close>

definition slice_index :: "nat \<Rightarrow> jsnum \<Rightarrow> nat" where
  "slice_index len i =
     (case i of
        Num n \<Rightarrow> if n < 0 then nat (max (int len + n) 0) else min (nat n) len
      | NaN \<Rightarrow> 0
      | PosInfinity \<Rightarrow> len
      | NegInfinity \<Rightarrow> 0)"

definition Array_slice :: "jsnum \<Rightarrow> jsnum \<Rightarrow> 'a list \<Rightarrow> 'a list" where
  "Array_slice start fin xs =
     (let k = slice_index (length xs) start;
          final = slice_index (length xs) fin
      in take (final - k) (drop k xs))"

text \<open>
  \<^verbatim>\<open>Array.prototype.sort(comparefn)\<close> is stable, and a comparison result that is \<open>NaN\<close>
  counts as 0. For a consistent comparison function the result is the one of a stable
  insertion sort: an element moves behind those that the comparison function places
  strictly before it.
\<close>

fun js_positive :: "jsnum \<Rightarrow> bool" where
  "js_positive (Num n) = (0 < n)"
| "js_positive PosInfinity = True"
| "js_positive _ = False"

fun insert_sorted :: "('a \<Rightarrow> 'a \<Rightarrow> jsnum) \<Rightarrow> 'a \<Rightarrow> 'a list \<Rightarrow> 'a list" where
  "insert_sorted cmp x [] = [x]"
| "insert_sorted cmp x (y # ys) =
     (if js_positive (cmp x y) then y # insert_sorted cmp x ys else x # y # ys)"

definition Array_sort :: "('a \<Rightarrow> 'a \<Rightarrow> jsnum) \<Rightarrow> 'a list \<Rightarrow> 'a list" where
  "Array_sort cmp xs = foldr (insert_sorted cmp) xs []"

text \<open>
  \<^verbatim>\<open>new Date(string)\<close>, for the date-only form \<^verbatim>\<open>YYYY-MM-DD\<close> of the standard, which is read
  as UTC; an element out of range gives an invalid date. Any other string (its reading is
  left to the implementation by the standard) and \<^verbatim>\<open>undefined\<close> are read as invalid here:
  \<open>refresh\<close> only compares dates that passed \<open>isValidDate\<close>.
\<close>

definition new_Date :: "string option \<Rightarrow> jsnum" where
  "new_Date v =
     (case v of
        None \<Rightarrow> NaN
      | Some s \<Rightarrow>
          (case match_here dateRegex s of
             Some ([y, m, d], _) \<Rightarrow>
               (let Y = decimal y; M = decimal m; D = decimal d in
                if 1 \<le> M \<and> M \<le> 12 \<and> 1 \<le> D \<and> D \<le> DaysInMonth Y (M - 1)
                then TimeClip (MakeDay Y (M - 1) D * msPerDay) else NaN)
           | _ \<Rightarrow> NaN))"

subsection \<open>The cache object\<close>

text \<open>
  The object holds \<open>cache\<close> and \<open>lastRefresh\<close>; its configuration, the file system it reads,
  the \<open>parseFile\<close> of the parser it was constructed with and the clock (\<open>now\<close>) are
  parameters of every operation. An operation returns \<open>Inl\<close> when it throws and \<open>Inr\<close> of
  its result and the new object otherwise.
\<close>

record BlogCache =
  cache :: "blog list"
  lastRefresh :: "int option"

definition endsWith :: "string \<Rightarrow> string \<Rightarrow> bool" where
  "endsWith s suf = (length suf \<le> length s \<and> drop (length s - length suf) s = suf)"

definition property :: "blog \<Rightarrow> string \<Rightarrow> jsval" where
  "property b k = (case map_of b k of None \<Rightarrow> JUndefined | Some v \<Rightarrow> JStr v)"

definition compare_dates :: "config \<Rightarrow> blog \<Rightarrow> blog \<Rightarrow> jsnum" where
  "compare_dates cfg a b =
     (let dateA = new_Date (map_of a ''date'');
          dateB = new_Date (map_of b ''date'')
      in if sortOrder cfg = ''asc'' then js_minus dateA dateB else js_minus dateB dateA)"

text \<open>The files that end up in the collection, in the order of the directory listing.\<close>

definition load_files :: "config \<Rightarrow> (string \<Rightarrow> error + blog) \<Rightarrow> string list \<Rightarrow> blog list" where
  "load_files cfg parse files =
     (let htmlFiles = filter (\<lambda>file. endsWith file ''.html'' \<or> endsWith file ''.htm'') files;
          parsed = map (\<lambda>file. case parse (path_join (blogsDir cfg) file) of
                                  Inl e \<Rightarrow> None
                                | Inr blog \<Rightarrow> Some blog) htmlFiles
      in concat (map (\<lambda>r. case r of
                             None \<Rightarrow> []
                           | Some blog \<Rightarrow> if isValidDate (property blog ''date'') then [blog] else [])
                     parsed))"

text \<open>The body of the \<^verbatim>\<open>try\<close> block of \<open>refresh\<close>, and \<open>refresh\<close> with its \<^verbatim>\<open>catch\<close>.\<close>

definition refresh_try ::
  "config \<Rightarrow> filesystem \<Rightarrow> (string \<Rightarrow> error + blog) \<Rightarrow> int \<Rightarrow> BlogCache \<Rightarrow> error + BlogCache" where
  "refresh_try cfg fs parse now this =
     (if \<not> existsSync fs (blogsDir cfg) then Inr (this\<lparr>cache := []\<rparr>)
      else case readdirSync fs (blogsDir cfg) of
             Inl e \<Rightarrow> Inl e
           | Inr files \<Rightarrow>
               Inr (this\<lparr>cache := Array_sort (compare_dates cfg) (load_files cfg parse files),
                         lastRefresh := Some now\<rparr>))"

definition refresh ::
  "config \<Rightarrow> filesystem \<Rightarrow> (string \<Rightarrow> error + blog) \<Rightarrow> int \<Rightarrow> BlogCache \<Rightarrow> error + BlogCache" where
  "refresh cfg fs parse now this =
     (case refresh_try cfg fs parse now this of
        Inl e \<Rightarrow> Inr (this\<lparr>cache := []\<rparr>)
      | Inr this' \<Rightarrow> Inr this')"

definition getAll ::
  "config \<Rightarrow> filesystem \<Rightarrow> (string \<Rightarrow> error + blog) \<Rightarrow> int \<Rightarrow> BlogCache
     \<Rightarrow> error + (blog list \<times> BlogCache)" where
  "getAll cfg fs parse now this =
     (if \<not> cacheEnabled cfg \<or> cache this = [] then
        (case refresh cfg fs parse now this of
           Inl e \<Rightarrow> Inl e
         | Inr this' \<Rightarrow> Inr (cache this', this'))
      else Inr (cache this, this))"

subsection \<open>BlogCache.getByDate\<close>






subsection \<open>BlogCache.getPaginated\<close>

record pagination =
  currentPage :: jsnum
  totalPages :: jsnum
  totalItems :: nat
  perPage :: int
  hasNext :: bool
  hasPrev :: bool
  nextPage :: "jsnum option"
  prevPage :: "jsnum option"

record paginated =
  items :: "blog list"
  pagination :: pagination

definition getPaginated ::
  "config \<Rightarrow> filesystem \<Rightarrow> (string \<Rightarrow> error + blog) \<Rightarrow> int \<Rightarrow> int \<Rightarrow> int \<Rightarrow> BlogCache
     \<Rightarrow> error + (paginated \<times> BlogCache)" where
  "getPaginated cfg fs parse now page per_page this =
     (case getAll cfg fs parse now this of
        Inl e \<Rightarrow> Inl e
      | Inr (blogs, this') \<Rightarrow>
          (let total_items = length blogs;
               total_pages = ceil_quotient (int total_items) per_page;
               current_page = Math_max (Num 1) (Math_min (Num page) total_pages);
               startIndex = js_times (js_minus current_page (Num 1)) (Num per_page);
               endIndex = js_plus startIndex (Num per_page)
           in Inr (\<lparr> items = Array_slice startIndex endIndex blogs,
                      pagination = \<lparr>
                        currentPage = current_page,
                        totalPages = total_pages,
                        totalItems = total_items,
                        perPage = per_page,
                        hasNext = js_less current_page total_pages,
                        hasPrev = js_less (Num 1) current_page,
                        nextPage = (if js_less current_page total_pages
                                    then Some (js_plus current_page (Num 1)) else None),
                        prevPage = (if js_less (Num 1) current_page
                                    then Some (js_minus current_page (Num 1)) else None) \<rparr> \<rparr>,
                   this')))"

subsection \<open>BlogCache.search and the router\<close>

text \<open>\<^verbatim>\<open>s.includes(k)\<close>: \<open>k\<close> starts at some position of \<open>s\<close>.\<close>

fun String_includes :: "string \<Rightarrow> string \<Rightarrow> bool" where
  "String_includes [] k = (k = [])"
| "String_includes (c # cs) k = (take (length k) (c # cs) = k \<or> String_includes cs k)"

definition field_matches :: "string \<Rightarrow> blog \<Rightarrow> string \<Rightarrow> bool" where
  "field_matches lowerKeyword blog field =
     (case map_of blog field of
        None \<Rightarrow> False
      | Some v \<Rightarrow> v \<noteq> [] \<and> String_includes (toLowerCase v) lowerKeyword)"

text \<open>The parameter \<^verbatim>\<open>fields\<close> is \<open>None\<close> when the caller passes no second argument.\<close>

definition search ::
  "config \<Rightarrow> filesystem \<Rightarrow> (string \<Rightarrow> error + blog) \<Rightarrow> int \<Rightarrow> string \<Rightarrow> string list option
     \<Rightarrow> BlogCache \<Rightarrow> error + (blog list \<times> BlogCache)" where
  "search cfg fs parse now keyword fieldsArg this =
     (let fieldList = (case fieldsArg of None \<Rightarrow> [''title'', ''desc''] | Some fl \<Rightarrow> fl) in
      case getAll cfg fs parse now this of
        Inl e \<Rightarrow> Inl e
      | Inr (blogs, this') \<Rightarrow>
          (let lowerKeyword = toLowerCase keyword in
           Inr (filter (\<lambda>blog. list_ex (field_matches lowerKeyword blog) fieldList) blogs, this')))"

text \<open>
  Both routes that take a \<^verbatim>\<open>search\<close> query parameter call
  \<^verbatim>\<open>blogSystem.cache.search(search)\<close>, with one argument.
\<close>

definition router_search ::
  "config \<Rightarrow> filesystem \<Rightarrow> (string \<Rightarrow> error + blog) \<Rightarrow> int \<Rightarrow> string \<Rightarrow> BlogCache
     \<Rightarrow> error + (blog list \<times> BlogCache)" where
  "router_search cfg fs parse now search_param this = search cfg fs parse now search_param None this"

section \<open>A small blog directory\<close>

text \<open>
  A directory \<^verbatim>\<open>blogs\<close> with three posts and one file that is not a post. The first post has a
  title element and a comment marker with the key \<^verbatim>\<open>title\<close>; the other two share a date,
  and one of them has the word \<^verbatim>\<open>needle\<close> in its body only. \<open>locked_fs\<close> is the same
  directory when listing it fails.
\<close>

definition fixture_fs :: filesystem where
  "fixture_fs =
     \<lparr> existsSync = (\<lambda>p. p = ''blogs''),
       readdirSync = (\<lambda>p. if p = ''blogs'' then Inr [''a.html'', ''b.txt'', ''c.htm'', ''d.html'']
                          else Inl (Error ''ENOENT'')),
       readFileSync = (\<lambda>p.
          if p = ''blogs/a.html''
          then Inr ''<title>First</title><!-- [date: 2025-01-20] --><!-- [title: Over] -->''
          else if p = ''blogs/c.htm'' then Inr ''<!-- [date: 2025-01-10] -->needle''
          else if p = ''blogs/d.html'' then Inr ''<!-- [date: 2025-01-10] -->twin''
          else Inl (Error ''ENOENT'')) \<rparr>"

definition locked_fs :: filesystem where
  "locked_fs = fixture_fs \<lparr> readdirSync := (\<lambda>p. Inl (Error ''EACCES'')) \<rparr>"

definition fixture_cfg :: config where
  "fixture_cfg = \<lparr> blogsDir = ''blogs'', cacheEnabled = True, sortOrder = ''desc'',
                    metadataFormat = ''html-comment'' \<rparr>"

definition empty_cache :: BlogCache where
  "empty_cache = \<lparr> cache = [], lastRefresh = None \<rparr>"

definition post_a :: blog where
  "post_a = [(''fileName'', ''a.html''), (''filePath'', ''blogs/a.html''), (''date'', ''2025-01-20''),
     (''title'', ''Over''), (''desc'', ''No description available''),
     (''content'', ''<title>First</title><!-- [date: 2025-01-20] --><!-- [title: Over] -->''),
     (''year'', ''2025''), (''month'', ''01''), (''day'', ''20''), (''slug'', ''first'')]"

definition post_c :: blog where
  "post_c = [(''fileName'', ''c.htm''), (''filePath'', ''blogs/c.htm''), (''date'', ''2025-01-10''),
     (''title'', ''Untitled''), (''desc'', ''No description available''),
     (''content'', ''<!-- [date: 2025-01-10] -->needle''),
     (''year'', ''2025''), (''month'', ''01''), (''day'', ''10''), (''slug'', ''chtm'')]"

definition post_d :: blog where
  "post_d = [(''fileName'', ''d.html''), (''filePath'', ''blogs/d.html''), (''date'', ''2025-01-10''),
     (''title'', ''Untitled''), (''desc'', ''No description available''),
     (''content'', ''<!-- [date: 2025-01-10] -->twin''),
     (''year'', ''2025''), (''month'', ''01''), (''day'', ''10''), (''slug'', ''dhtml'')]"

definition loaded_cache :: BlogCache where
  "loaded_cache = \<lparr> cache = [post_a, post_c, post_d], lastRefresh = Some 7 \<rparr>"

lemma fixture_getAll:
  "getAll fixture_cfg fixture_fs (parseFile fixture_cfg fixture_fs) 7 empty_cache
     = Inr ([post_a, post_c, post_d], loaded_cache)"
  by code_simp

lemma fixture_refresh:
  "refresh fixture_cfg fixture_fs (parseFile fixture_cfg fixture_fs) 7 empty_cache = Inr loaded_cache"
  by code_simp

section \<open>Errors during refresh\<close>

lemma refresh_total: "\<exists>this'. refresh cfg fs parse now this = Inr this'"
  by (simp add: refresh_def split: sum.split)

text \<open>
  Claim C3, as the code has it: \<open>refresh\<close> returns normally whatever the file system does;
  when the directory exists and listing it throws, the error is caught, the collection is
  set to empty, and nothing else of the object changes.
\<close>

theorem refresh_swallows_listing_error:
  "(\<exists>this'. refresh cfg fs parse now this = Inr this')
   \<and> (existsSync fs (blogsDir cfg) \<and> readdirSync fs (blogsDir cfg) = Inl e
        \<longrightarrow> refresh cfg fs parse now this = Inr (this\<lparr>cache := []\<rparr>))"
  by (simp add: refresh_def refresh_try_def split: sum.split)

theorem refresh_swallows_listing_error_witness:
  "existsSync locked_fs (blogsDir fixture_cfg)
   \<and> readdirSync locked_fs (blogsDir fixture_cfg) = Inl (Error ''EACCES'')
   \<and> refresh fixture_cfg locked_fs (parseFile fixture_cfg locked_fs) 9 loaded_cache
       = Inr \<lparr> cache = [], lastRefresh = Some 7 \<rparr>"
proof -
  have h: "existsSync locked_fs (blogsDir fixture_cfg)
      \<and> readdirSync locked_fs (blogsDir fixture_cfg) = Inl (Error ''EACCES'')"
    by (simp add: locked_fs_def fixture_fs_def fixture_cfg_def)
  with refresh_swallows_listing_error
    [of fixture_cfg locked_fs "parseFile fixture_cfg locked_fs" 9 loaded_cache "Error ''EACCES''"]
  show ?thesis by (simp add: loaded_cache_def)
qed

text \<open>
  Claim C3 says that the error of a failing directory listing reaches the caller of
  \<open>refresh\<close>. Here the directory exists, listing it throws \<^verbatim>\<open>EACCES\<close>, and \<open>refresh\<close> returns
  normally, with an empty collection.
\<close>

theorem refresh_propagates_counterexample:
  "existsSync locked_fs (blogsDir fixture_cfg)
   \<and> readdirSync locked_fs (blogsDir fixture_cfg) = Inl (Error ''EACCES'')
   \<and> refresh_try fixture_cfg locked_fs (parseFile fixture_cfg locked_fs) 9 loaded_cache
       = Inl (Error ''EACCES'')
   \<and> refresh fixture_cfg locked_fs (parseFile fixture_cfg locked_fs) 9 loaded_cache
       \<noteq> Inl (Error ''EACCES'')
   \<and> refresh fixture_cfg locked_fs (parseFile fixture_cfg locked_fs) 9 loaded_cache
       = Inr \<lparr> cache = [], lastRefresh = Some 7 \<rparr>"
  by (simp add: refresh_def refresh_try_def locked_fs_def fixture_fs_def fixture_cfg_def loaded_cache_def)

text \<open>
  Claim C10: an error thrown in the \<^verbatim>\<open>try\<close> block of \<open>refresh\<close> is caught; the collection is
  then empty, whatever it held before, and a read that follows (on the same file system)
  returns no record.
\<close>

theorem refresh_failure_empties:
  assumes "refresh_try cfg fs parse now this = Inl e"
  shows "refresh cfg fs parse now this = Inr (this\<lparr>cache := []\<rparr>)
         \<and> cache (this\<lparr>cache := []\<rparr>) = []
         \<and> getAll cfg fs parse now' (this\<lparr>cache := []\<rparr>) = Inr ([], this\<lparr>cache := []\<rparr>)"
proof -
  from assms have ex: "existsSync fs (blogsDir cfg)" and rd: "readdirSync fs (blogsDir cfg) = Inl e"
    by (auto simp: refresh_try_def split: if_splits sum.splits)
  then have "refresh_try cfg fs parse now' (this\<lparr>cache := []\<rparr>) = Inl e"
    by (simp add: refresh_try_def)
  then show ?thesis using assms by (simp add: refresh_def getAll_def)
qed

theorem refresh_failure_empties_witness:
  "refresh_try fixture_cfg locked_fs (parseFile fixture_cfg locked_fs) 9 loaded_cache
     = Inl (Error ''EACCES'')
   \<and> cache loaded_cache = [post_a, post_c, post_d]
   \<and> refresh fixture_cfg locked_fs (parseFile fixture_cfg locked_fs) 9 loaded_cache
       = Inr \<lparr> cache = [], lastRefresh = Some 7 \<rparr>
   \<and> getAll fixture_cfg locked_fs (parseFile fixture_cfg locked_fs) 10 \<lparr> cache = [], lastRefresh = Some 7 \<rparr>
       = Inr ([], \<lparr> cache = [], lastRefresh = Some 7 \<rparr>)"
proof -
  have h: "refresh_try fixture_cfg locked_fs (parseFile fixture_cfg locked_fs) 9 loaded_cache
      = Inl (Error ''EACCES'')"
    by (simp add: refresh_try_def locked_fs_def fixture_fs_def fixture_cfg_def)
  from refresh_failure_empties [OF h, of 10] h show ?thesis
    by (simp add: loaded_cache_def)
qed

section \<open>Pagination\<close>

text \<open>
  Calling \<open>getPaginated\<close> for a list of page numbers, one call after the other on the same
  cache object, and appending the items of the pages.
\<close>

fun collect_pages ::
  "config \<Rightarrow> filesystem \<Rightarrow> (string \<Rightarrow> error + blog) \<Rightarrow> int \<Rightarrow> int \<Rightarrow> int list \<Rightarrow> BlogCache
     \<Rightarrow> error + (blog list \<times> BlogCache)" where
  "collect_pages cfg fs parse now per_page [] this = Inr ([], this)"
| "collect_pages cfg fs parse now per_page (page # pages) this =
     (case getPaginated cfg fs parse now page per_page this of
        Inl e \<Rightarrow> Inl e
      | Inr (r, this') \<Rightarrow>
          (case collect_pages cfg fs parse now per_page pages this' of
             Inl e \<Rightarrow> Inl e
           | Inr (rest, this'') \<Rightarrow> Inr (items r @ rest, this'')))"

definition page_count :: "nat \<Rightarrow> int \<Rightarrow> int" where
  "page_count n p = - ((- int n) div p)"

lemma page_count_ceiling: "page_count n p = \<lceil>real n / real_of_int p\<rceil>"
  using ceiling_divide_eq_div [of "int n" p, where ?'a = real] by (simp add: page_count_def)

lemma page_count_bounds:
  assumes "0 < p"
  shows "0 \<le> page_count n p" "int n \<le> page_count n p * p" "0 < n \<Longrightarrow> (page_count n p - 1) * p < int n"
    "0 < n \<Longrightarrow> 1 \<le> page_count n p"
proof -
  define q where "q = (- int n) div p"
  define r where "r = (- int n) mod p"
  have e: "- int n = p * q + r" and r: "0 \<le> r" "r < p"
    using assms by (simp_all add: q_def r_def)
  have pc: "page_count n p = - q" by (simp add: page_count_def q_def)
  have pq: "p * q \<le> 0" using e r by linarith
  then have q0: "q \<le> 0" using assms by (simp add: mult_le_0_iff)
  then show "0 \<le> page_count n p" by (simp add: pc)
  show "int n \<le> page_count n p * p" using e r by (simp add: pc algebra_simps)
  show lt: "(page_count n p - 1) * p < int n" if "0 < n"
    using e r by (simp add: pc algebra_simps)
  show "1 \<le> page_count n p" if "0 < n"
  proof (rule ccontr)
    assume "\<not> 1 \<le> page_count n p"
    with q0 have "q = 0" by (simp add: pc)
    with e r that show False by simp
  qed
qed

lemma slice_window:
  assumes "0 \<le> s" "0 \<le> p"
  shows "Array_slice (Num s) (Num (s + p)) xs = take (nat p) (drop (nat s) xs)"
proof (cases "nat s < length xs")
  case True
  then have "min (nat (s + p)) (length xs) - nat s = min (nat p) (length xs - nat s)"
    using assms by (simp add: nat_add_distrib min_def)
  then show ?thesis
    using True assms by (simp add: Array_slice_def slice_index_def Let_def min_def)
next
  case False
  then show ?thesis
    using assms by (simp add: Array_slice_def slice_index_def Let_def min_def)
qed

definition clamp_page :: "int \<Rightarrow> int \<Rightarrow> int" where
  "clamp_page page t = max 1 (min page t)"

lemma getPaginated_result:
  fixes page :: int
  assumes p: "0 < per_page" and g: "getAll cfg fs parse now this = Inr (blogs, this1)"
  defines "t \<equiv> page_count (length blogs) per_page"
  defines "cp \<equiv> clamp_page page t"
  shows "getPaginated cfg fs parse now page per_page this =
     Inr (\<lparr> items = take (nat per_page) (drop (nat ((cp - 1) * per_page)) blogs),
            pagination = \<lparr> currentPage = Num cp, totalPages = Num t,
              totalItems = length blogs, perPage = per_page,
              hasNext = (cp < t), hasPrev = (1 < cp),
              nextPage = (if cp < t then Some (Num (cp + 1)) else None),
              prevPage = (if 1 < cp then Some (Num (cp - 1)) else None) \<rparr> \<rparr>, this1)"
proof -
  have tp: "ceil_quotient (int (length blogs)) per_page = Num t"
    using p by (simp add: ceil_quotient_def t_def page_count_def)
  have c: "Math_max (Num 1) (Math_min (Num page) (Num t)) = Num cp"
    by (simp add: Math_max_def Math_min_def cp_def clamp_page_def max_def min_def)
  have "1 \<le> cp" by (simp add: cp_def clamp_page_def)
  then have s: "0 \<le> (cp - 1) * per_page" using p by simp
  have sl: "Array_slice (Num ((cp - 1) * per_page)) (Num ((cp - 1) * per_page + per_page)) blogs
      = take (nat per_page) (drop (nat ((cp - 1) * per_page)) blogs)"
    using s p by (intro slice_window) simp_all
  show ?thesis
    unfolding getPaginated_def g by (simp add: tp c sl Let_def)
qed


lemma refresh_cache_fixed:
  assumes "refresh cfg fs parse now this = Inr a" "refresh cfg fs parse now' that = Inr b"
  shows "cache a = cache b"
  using assms by (auto simp: refresh_def refresh_try_def split: if_splits sum.splits)

lemma getAll_total: "\<exists>blogs this1. getAll cfg fs parse now this = Inr (blogs, this1)"
  using refresh_total [of cfg fs parse now this] by (auto simp: getAll_def)

lemma getAll_again:
  assumes "getAll cfg fs parse now this = Inr (blogs, this1)"
  shows "\<exists>this2. getAll cfg fs parse now' this1 = Inr (blogs, this2)"
proof (cases "\<not> cacheEnabled cfg \<or> cache this = []")
  case False
  with assms show ?thesis by (auto simp: getAll_def)
next
  case True
  with assms have r1: "refresh cfg fs parse now this = Inr this1" and b: "blogs = cache this1"
    by (auto simp: getAll_def split: sum.splits)
  show ?thesis
  proof (cases "\<not> cacheEnabled cfg \<or> cache this1 = []")
    case False
    then show ?thesis using b by (simp add: getAll_def)
  next
    case True
    obtain this2 where r2: "refresh cfg fs parse now' this1 = Inr this2"
      using refresh_total by blast
    from refresh_cache_fixed [OF r1 r2] b True r2 show ?thesis
      by (simp add: getAll_def)
  qed
qed

lemma take_drop_pages:
  "concat (map (\<lambda>k. take p (drop (k * p) xs)) [0 ..< t]) = take (t * p) xs"
proof (induction t)
  case 0
  show ?case by simp
next
  case (Suc t)
  have "take (t * p + p) xs = take (t * p) xs @ take p (drop (t * p) xs)"
    by (simp add: take_add)
  with Suc show ?case by (simp add: add.commute)
qed

definition page_items :: "int \<Rightarrow> int \<Rightarrow> blog list \<Rightarrow> blog list" where
  "page_items per_page page blogs =
     take (nat per_page)
       (drop (nat ((clamp_page page (page_count (length blogs) per_page) - 1) * per_page)) blogs)"

lemma collect_pages_items:
  assumes p: "0 < per_page"
  shows "getAll cfg fs parse now this = Inr (blogs, this1) \<Longrightarrow>
         \<exists>this2. collect_pages cfg fs parse now per_page pages this
                   = Inr (concat (map (\<lambda>page. page_items per_page page blogs) pages), this2)"
proof (induction pages arbitrary: this this1)
  case Nil
  show ?case by simp
next
  case (Cons page pages)
  obtain this2 where g2: "getAll cfg fs parse now this1 = Inr (blogs, this2)"
    using getAll_again [OF Cons.prems] by blast
  from Cons.IH [OF g2] obtain this3 where
    c: "collect_pages cfg fs parse now per_page pages this1
          = Inr (concat (map (\<lambda>page. page_items per_page page blogs) pages), this3)"
    by blast
  show ?case
    by (simp add: getPaginated_result [OF p Cons.prems] c page_items_def)
qed

lemma all_pages_cover:
  fixes blogs :: "blog list"
  assumes p: "0 < per_page"
  defines "t \<equiv> page_count (length blogs) per_page"
  shows "concat (map (\<lambda>page. page_items per_page page blogs) (map int [1 ..< Suc (nat t)])) = blogs"
proof -
  note b = page_count_bounds [OF p, of "length blogs"]
  have t0: "0 \<le> t" using b(1) by (simp add: t_def)
  have each: "page_items per_page (int (Suc k)) blogs = take (nat per_page) (drop (k * nat per_page) blogs)"
    if "k < nat t" for k
  proof -
    from that have "clamp_page (int (Suc k)) t = int (Suc k)"
      by (simp add: clamp_page_def)
    moreover have "nat (int k * per_page) = k * nat per_page"
      using p by (simp add: nat_mult_distrib)
    ultimately show ?thesis by (simp add: page_items_def t_def [symmetric])
  qed
  have "map (\<lambda>page. page_items per_page page blogs) (map int [1 ..< Suc (nat t)])
      = map (\<lambda>k. page_items per_page (int (Suc k)) blogs) [0 ..< nat t]"
    by (simp add: map_Suc_upt [symmetric] del: upt_Suc)
  also have "\<dots> = map (\<lambda>k. take (nat per_page) (drop (k * nat per_page) blogs)) [0 ..< nat t]"
    using each by simp
  finally have "concat (map (\<lambda>page. page_items per_page page blogs) (map int [1 ..< Suc (nat t)]))
      = take (nat t * nat per_page) blogs"
    by (simp add: take_drop_pages)
  moreover have "length blogs \<le> nat t * nat per_page"
  proof -
    have eq: "int (nat t * nat per_page) = t * per_page" using t0 p by simp
    have "int (length blogs) \<le> int (nat t * nat per_page)"
      unfolding eq using b(2) by (simp add: t_def)
    then show ?thesis by (simp only: of_nat_le_iff)
  qed
  ultimately show ?thesis by simp
qed

text \<open>
  Claim C6: for every collection, every \<open>perPage > 0\<close> and every page number, a page has at
  most \<open>perPage\<close> items, \<open>totalPages\<close> is the ceiling of \<open>totalItems / perPage\<close>, and the items
  of the pages \<open>1, \<dots>, totalPages\<close>, requested in order, make up the result of \<open>getAll\<close>.
\<close>

theorem getPaginated_pages:
  assumes "0 < per_page"
  shows "\<exists>blogs this1.
           getAll cfg fs parse now this = Inr (blogs, this1)
           \<and> (\<exists>r. getPaginated cfg fs parse now page per_page this = Inr (r, this1)
                  \<and> int (length (items r)) \<le> per_page
                  \<and> totalItems (pagination r) = length blogs
                  \<and> totalPages (pagination r) = Num \<lceil>real (length blogs) / real_of_int per_page\<rceil>)
           \<and> (\<exists>this2. collect_pages cfg fs parse now per_page
                          (map int [1 ..< Suc (nat \<lceil>real (length blogs) / real_of_int per_page\<rceil>)]) this
                        = Inr (blogs, this2))"
proof -
  obtain blogs this1 where g: "getAll cfg fs parse now this = Inr (blogs, this1)"
    using getAll_total by blast
  let ?t = "page_count (length blogs) per_page"
  note r = getPaginated_result [OF assms g, of page]
  obtain this2 where "collect_pages cfg fs parse now per_page (map int [1 ..< Suc (nat ?t)]) this
      = Inr (concat (map (\<lambda>page. page_items per_page page blogs) (map int [1 ..< Suc (nat ?t)])), this2)"
    using collect_pages_items [OF assms g] by blast
  then have c: "collect_pages cfg fs parse now per_page (map int [1 ..< Suc (nat ?t)]) this = Inr (blogs, this2)"
    by (simp only: all_pages_cover [OF assms])
  show ?thesis
    using g r c assms by (simp add: page_count_ceiling)
qed


text \<open>The theorem on the small blog directory, two posts per page, first page.\<close>

theorem getPaginated_pages_witness:
  "(0::int) < 2
   \<and> (\<exists>r. getPaginated fixture_cfg fixture_fs (parseFile fixture_cfg fixture_fs) 7 1 2 empty_cache
              = Inr (r, loaded_cache)
          \<and> int (length (items r)) \<le> 2
          \<and> totalItems (pagination r) = 3
          \<and> totalPages (pagination r) = Num 2)
   \<and> (\<exists>this2. collect_pages fixture_cfg fixture_fs (parseFile fixture_cfg fixture_fs) 7 2 [1, 2] empty_cache
                = Inr ([post_a, post_c, post_d], this2))"
proof -
  have h: "(0::int) < 2" by simp
  from getPaginated_pages [OF h, of fixture_cfg fixture_fs "parseFile fixture_cfg fixture_fs" 7 empty_cache 1]
  obtain blogs this1 r this2 where
    g: "getAll fixture_cfg fixture_fs (parseFile fixture_cfg fixture_fs) 7 empty_cache = Inr (blogs, this1)"
    and r: "getPaginated fixture_cfg fixture_fs (parseFile fixture_cfg fixture_fs) 7 1 2 empty_cache = Inr (r, this1)"
      "int (length (items r)) \<le> 2" "totalItems (pagination r) = length blogs"
      "totalPages (pagination r) = Num \<lceil>real (length blogs) / real_of_int 2\<rceil>"
    and c: "collect_pages fixture_cfg fixture_fs (parseFile fixture_cfg fixture_fs) 7 2
          (map int [1 ..< Suc (nat \<lceil>real (length blogs) / real_of_int 2\<rceil>)]) empty_cache
        = Inr (blogs, this2)"
    by blast
  from g have b: "blogs = [post_a, post_c, post_d]" "this1 = loaded_cache"
    by (simp_all add: fixture_getAll)
  have n: "\<lceil>real (length blogs) / real_of_int 2\<rceil> = 2" by (simp add: b)
  have l: "map int [1 ..< Suc (nat 2)] = [1, 2]" by (simp add: upt_rec)
  from r have r': "getPaginated fixture_cfg fixture_fs (parseFile fixture_cfg fixture_fs) 7 1 2 empty_cache
      = Inr (r, loaded_cache)
    \<and> int (length (items r)) \<le> 2 \<and> totalItems (pagination r) = 3 \<and> totalPages (pagination r) = Num 2"
    by (simp add: n b)
  from c [unfolded n l]
  have c': "collect_pages fixture_cfg fixture_fs (parseFile fixture_cfg fixture_fs) 7 2 [1, 2] empty_cache
      = Inr ([post_a, post_c, post_d], this2)"
    by (simp only: b)
  from h r' c' show ?thesis by blast
qed




section \<open>Search\<close>

lemma take_prefix: "take (length k) s = k \<longleftrightarrow> prefix k s"
proof
  assume "take (length k) s = k"
  then have "s = k @ drop (length k) s" by (metis append_take_drop_id)
  then show "prefix k s" by (metis prefixI)
next
  assume "prefix k s"
  then show "take (length k) s = k" by (auto simp: prefix_def)
qed

lemma String_includes_sublist: "String_includes s k \<longleftrightarrow> sublist k s"
proof (induction s)
  case Nil
  show ?case by simp
next
  case (Cons c cs)
  have "String_includes (c # cs) k \<longleftrightarrow> prefix k (c # cs) \<or> String_includes cs k"
    using take_prefix [of k "c # cs"] by simp
  with Cons show ?case by (simp add: sublist_Cons_right)
qed

text \<open>
  A record mentions a keyword in a field when the field holds a non-empty string and the
  lower-cased keyword is a substring of the lower-cased field.
\<close>

definition mentions :: "string \<Rightarrow> blog \<Rightarrow> string \<Rightarrow> bool" where
  "mentions keyword blog field \<longleftrightarrow>
     (\<exists>v. map_of blog field = Some v \<and> v \<noteq> [] \<and> sublist (toLowerCase keyword) (toLowerCase v))"

lemma field_matches_mentions: "field_matches (toLowerCase keyword) blog field \<longleftrightarrow> mentions keyword blog field"
  by (auto simp: field_matches_def mentions_def String_includes_sublist split: option.splits)

text \<open>
  Claim C1, as the code has it: the search that the routes call returns, in the order of
  the collection, exactly the records that mention the keyword in the title or in the
  description. The content is not searched.
\<close>

theorem router_search_title_or_desc:
  "\<exists>blogs this1.
     getAll cfg fs parse now this = Inr (blogs, this1)
     \<and> router_search cfg fs parse now keyword this
         = Inr (filter (\<lambda>blog. mentions keyword blog ''title'' \<or> mentions keyword blog ''desc'') blogs, this1)"
proof -
  obtain blogs this1 where g: "getAll cfg fs parse now this = Inr (blogs, this1)"
    using getAll_total by blast
  then show ?thesis
    by (simp add: router_search_def search_def field_matches_mentions)
qed

theorem router_search_title_or_desc_witness:
  "getAll fixture_cfg fixture_fs (parseFile fixture_cfg fixture_fs) 7 empty_cache
     = Inr ([post_a, post_c, post_d], loaded_cache)
   \<and> router_search fixture_cfg fixture_fs (parseFile fixture_cfg fixture_fs) 7 ''OVER'' empty_cache
     = Inr (filter (\<lambda>blog. mentions ''OVER'' blog ''title'' \<or> mentions ''OVER'' blog ''desc'')
              [post_a, post_c, post_d], loaded_cache)
   \<and> router_search fixture_cfg fixture_fs (parseFile fixture_cfg fixture_fs) 7 ''OVER'' empty_cache
     = Inr ([post_a], loaded_cache)"
proof -
  have s: "router_search fixture_cfg fixture_fs (parseFile fixture_cfg fixture_fs) 7 ''OVER'' empty_cache
      = Inr ([post_a], loaded_cache)"
    unfolding router_search_def search_def fixture_getAll by code_simp
  from router_search_title_or_desc
    [of fixture_cfg fixture_fs "parseFile fixture_cfg fixture_fs" 7 empty_cache "''OVER''"]
  show ?thesis
    unfolding fixture_getAll s by simp
qed

text \<open>
  Claim C1 says that a record whose content has the keyword is returned. In the small
  blog directory the word \<^verbatim>\<open>needle\<close> occurs in the content of one post and in no title or
  description, and the search of the routes returns nothing.
\<close>

theorem router_search_content_counterexample:
  "getAll fixture_cfg fixture_fs (parseFile fixture_cfg fixture_fs) 7 empty_cache
     = Inr ([post_a, post_c, post_d], loaded_cache)
   \<and> map_of post_c ''content'' = Some ''<!-- [date: 2025-01-10] -->needle''
   \<and> String_includes (toLowerCase ''<!-- [date: 2025-01-10] -->needle'') (toLowerCase ''needle'')
   \<and> router_search fixture_cfg fixture_fs (parseFile fixture_cfg fixture_fs) 7 ''needle'' empty_cache
     = Inr ([], loaded_cache)"
  unfolding router_search_def search_def fixture_getAll by code_simp

section \<open>Extra metadata\<close>

subsection \<open>The loop over the custom markers ends\<close>

lemma take_eq_append: "take n s = u \<Longrightarrow> s = u @ drop n s"
  by (metis append_take_drop_id)

lemma splits_sound: "(u, r) \<in> set (splits a s) \<Longrightarrow> s = u @ r"
  by (cases a) (auto simp: cuts_def take_eq_append split: if_splits)

lemma first_some_Some:
  "first_some f xs = Some y \<Longrightarrow> \<exists>x \<in> set xs. f x = Some y"
  by (induction xs) (auto split: option.splits)

lemma match_here_suffix:
  "match_here pat s = Some (caps, r) \<Longrightarrow> \<exists>u. s = u @ r"
proof (induction pat arbitrary: s caps r)
  case Nil
  then show ?case by simp
next
  case (Cons it its)
  from Cons.prems obtain u r0 where
    sp: "(u, r0) \<in> set (splits (atom_of it) s)"
    and m: "(case match_here its r0 of None \<Rightarrow> None
             | Some (caps', rest) \<Rightarrow>
                 Some (case it of Capture _ \<Rightarrow> u # caps' | Match _ \<Rightarrow> caps', rest)) = Some (caps, r)"
    by (auto dest!: first_some_Some)
  from m obtain caps' where "match_here its r0 = Some (caps', r)"
    by (auto split: option.splits)
  from Cons.IH [OF this] obtain v where "r0 = v @ r" by blast
  with splits_sound [OF sp] show ?case by simp
qed

lemma match_here_literal_first:
  assumes "match_here (Match (Lit l) # its) s = Some (caps, r)"
  shows "length r + length l \<le> length s"
proof -
  from assms have p: "take (length l) s = l"
    and m: "match_here its (drop (length l) s) \<noteq> None"
    by (auto split: if_splits option.splits)
  from m obtain caps' r' where m': "match_here its (drop (length l) s) = Some (caps', r')" by auto
  with assms p have "r' = r" by simp
  with match_here_suffix [OF m'] obtain u where "drop (length l) s = u @ r" by blast
  then have "length r \<le> length s - length l"
    by (metis length_append length_drop le_add2)
  moreover have "length l \<le> length s" using arg_cong [OF p, of length] by simp
  ultimately show ?thesis by simp
qed

lemma regex_search_literal_first:
  "regex_search (Match (Lit l) # its) s = Some (caps, r) \<Longrightarrow> length r + length l \<le> length s"
proof (induction s)
  case Nil
  then show ?case using match_here_literal_first [of l its "[]" caps r] by simp
next
  case (Cons c cs)
  show ?case
  proof (cases "match_here (Match (Lit l) # its) (c # cs)")
    case None
    with Cons show ?thesis by simp
  next
    case (Some m)
    with Cons.prems have "match_here (Match (Lit l) # its) (c # cs) = Some (caps, r)" by simp
    then show ?thesis by (rule match_here_literal_first)
  qed
qed

lemma customMeta_consumes:
  "regex_search customMetaRegex s = Some (caps, rest) \<Longrightarrow> length rest < length s"
  unfolding customMetaRegex_def by (drule regex_search_literal_first) simp

lemma exec_all_customMeta:
  "exec_all customMetaRegex s =
     (case regex_search customMetaRegex s of
        None \<Rightarrow> []
      | Some (caps, rest) \<Rightarrow> caps # exec_all customMetaRegex rest)"
  by (subst exec_all.simps) (auto split: option.splits dest: customMeta_consumes)


subsection \<open>The keys of the extra map\<close>












section \<open>Lookup by date\<close>










section \<open>Sort order\<close>

lemma YearFromDay_mono: "d \<le> d' \<Longrightarrow> YearFromDay d \<le> YearFromDay d'"
proof (rule ccontr)
  assume le: "d \<le> d'" and "\<not> YearFromDay d \<le> YearFromDay d'"
  then have "YearFromDay d' + 1 \<le> YearFromDay d" by simp
  then have "DayFromYear (YearFromDay d' + 1) \<le> DayFromYear (YearFromDay d)"
    by (rule DayFromYear_mono)
  with YearFromDay_bounds(2) [of d'] YearFromDay_bounds(1) [of d] le show False by simp
qed

lemma month_of_mono: "w \<le> w' \<Longrightarrow> month_of l w \<le> month_of l w'"
  by (simp add: month_of_def)

lemma MakeDay_strict_mono:
  assumes v1: "0 \<le> m1" "m1 \<le> 11" "1 \<le> d1" "d1 \<le> DaysInMonth y1 m1"
    and v2: "0 \<le> m2" "m2 \<le> 11" "1 \<le> d2" "d2 \<le> DaysInMonth y2 m2"
    and lt: "y1 < y2 \<or> (y1 = y2 \<and> (m1 < m2 \<or> (m1 = m2 \<and> d1 < d2)))"
  shows "MakeDay y1 m1 d1 < MakeDay y2 m2 d2"
proof (rule ccontr)
  let ?D1 = "MakeDay y1 m1 d1" and ?D2 = "MakeDay y2 m2 d2"
  assume "\<not> ?D1 < ?D2"
  then have le: "?D2 \<le> ?D1" by simp
  note r1 = MakeDay_roundtrip [OF v1] and r2 = MakeDay_roundtrip [OF v2]
  from YearFromDay_mono [OF le] have "y2 \<le> y1" by (simp add: r1 r2)
  with lt have y: "y1 = y2" and lt': "m1 < m2 \<or> (m1 = m2 \<and> d1 < d2)" by auto
  have M1: "MonthFromDay ?D1 = month_of (InLeapYear y1) (?D1 - DayFromYear y1)"
    by (simp add: MonthFromDay_def r1(1))
  have M2: "MonthFromDay ?D2 = month_of (InLeapYear y2) (?D2 - DayFromYear y2)"
    by (simp add: MonthFromDay_def r2(1))
  have "month_of (InLeapYear y2) (?D2 - DayFromYear y2) \<le> month_of (InLeapYear y2) (?D1 - DayFromYear y2)"
    by (rule month_of_mono) (use le in simp)
  then have "MonthFromDay ?D2 \<le> MonthFromDay ?D1"
    unfolding M1 M2 by (simp only: y)
  then have "m2 \<le> m1" by (simp only: r1(2) r2(2))
  with lt' have m: "m1 = m2" and dlt: "d1 < d2" by auto
  from le have "d2 \<le> d1"
    using v1(1,2) by (simp add: MakeDay_def y m)
  with dlt show False by simp
qed


text \<open>
  The order of two date strings: the order of their (year, month, day) components. The time
  value of a record is the time value of \<^verbatim>\<open>new Date(blog.date)\<close>.
\<close>

definition date_key :: "string \<Rightarrow> int \<times> int \<times> int" where
  "date_key s = (decimal (take 4 s), decimal (take 2 (drop 5 s)), decimal (take 2 (drop 8 s)))"

definition earlier :: "string \<Rightarrow> string \<Rightarrow> bool" where
  "earlier d1 d2 =
     (case (date_key d1, date_key d2) of
        ((y1, m1, a1), (y2, m2, a2)) \<Rightarrow> y1 < y2 \<or> (y1 = y2 \<and> (m1 < m2 \<or> (m1 = m2 \<and> a1 < a2))))"

definition time_value :: "blog \<Rightarrow> int" where
  "time_value b = (case new_Date (map_of b ''date'') of Num t \<Rightarrow> t | _ \<Rightarrow> 0)"

definition sort_key_of :: "config \<Rightarrow> blog \<Rightarrow> int" where
  "sort_key_of cfg b = (if sortOrder cfg = ''asc'' then time_value b else - time_value b)"

lemma valid_date_value:
  assumes "isValidDate (property b ''date'')"
  obtains s y m d where "map_of b ''date'' = Some s"
    and "date_key s = (y, m + 1, d)"
    and "0 \<le> m" "m \<le> 11" "1 \<le> d" "d \<le> DaysInMonth y m"
    and "new_Date (Some s) = Num (MakeDay y m d * msPerDay)"
proof -
  from assms obtain s ys ms ds where
    v: "property b ''date'' = JStr s" and ds: "date_string s ys ms ds" and y100: "100 \<le> decimal ys"
    and rc: "real_calendar_date (decimal ys) (decimal ms) (decimal ds)"
    unfolding isValidDate_iff by blast
  from v have m: "map_of b ''date'' = Some s"
    by (simp add: property_def split: option.splits)
  from ds have s: "s = ys @ ''-'' @ ms @ ''-'' @ ds" and len: "length ys = 4" "length ms = 2" "length ds = 2"
    and dig: "list_all is_digit (ys @ ms @ ds)"
    by (simp_all add: date_string_def)
  have key: "date_key s = (decimal ys, decimal ms - 1 + 1, decimal ds)"
    by (simp add: date_key_def s len)
  from rc have r: "0 \<le> decimal ms - 1" "decimal ms - 1 \<le> 11" "1 \<le> decimal ds"
    "decimal ds \<le> DaysInMonth (decimal ys) (decimal ms - 1)"
    by (simp_all add: real_calendar_date_def)
  from dig have "list_all is_digit ys" by simp
  from decimal_range [OF this] have y9999: "decimal ys \<le> 9999" by (simp add: len)
  have "DaysInMonth (decimal ys) (decimal ms - 1) \<le> 31"
    using InLeapYear_cases [of "decimal ys"] by (auto simp: DaysInMonth_def month_len_def)
  with r have d99: "decimal ds \<le> 99" by simp
  have clip: "\<bar>MakeDay (decimal ys) (decimal ms - 1) (decimal ds) * msPerDay\<bar> \<le> 8640000000000000"
    by (rule MakeDay_range) (use y100 y9999 r d99 in simp_all)
  have mt: "match_here dateRegex s = Some ([ys, ms, ds], [])"
    unfolding s by (rule dateRegex_match) (use len dig in simp_all)
  have "new_Date (Some s) = Num (MakeDay (decimal ys) (decimal ms - 1) (decimal ds) * msPerDay)"
    using rc clip by (simp add: new_Date_def mt Let_def real_calendar_date_def TimeClip_def)
  with m key r show ?thesis by (rule that)
qed

lemma earlier_time_value:
  assumes a: "isValidDate (property a ''date'')" and b: "isValidDate (property b ''date'')"
    and da: "map_of a ''date'' = Some d1" and db: "map_of b ''date'' = Some d2"
    and e: "earlier d1 d2"
  shows "time_value a < time_value b"
proof -
  from a obtain s1 y1 m1 a1 where
    1: "map_of a ''date'' = Some s1" "date_key s1 = (y1, m1 + 1, a1)"
      "0 \<le> m1" "m1 \<le> 11" "1 \<le> a1" "a1 \<le> DaysInMonth y1 m1"
      "new_Date (Some s1) = Num (MakeDay y1 m1 a1 * msPerDay)"
    by (rule valid_date_value)
  from b obtain s2 y2 m2 a2 where
    2: "map_of b ''date'' = Some s2" "date_key s2 = (y2, m2 + 1, a2)"
      "0 \<le> m2" "m2 \<le> 11" "1 \<le> a2" "a2 \<le> DaysInMonth y2 m2"
      "new_Date (Some s2) = Num (MakeDay y2 m2 a2 * msPerDay)"
    by (rule valid_date_value)
  from 1(1) 2(1) da db have s: "s1 = d1" "s2 = d2" by simp_all
  from e have "y1 < y2 \<or> (y1 = y2 \<and> (m1 < m2 \<or> (m1 = m2 \<and> a1 < a2)))"
    using 1(2) 2(2) unfolding earlier_def s by auto
  from MakeDay_strict_mono [OF 1(3-6) 2(3-6) this]
  have "MakeDay y1 m1 a1 * msPerDay < MakeDay y2 m2 a2 * msPerDay"
    by (simp add: msPerDay_def)
  then show ?thesis
    by (simp add: time_value_def 1(1,7) 2(1,7))
qed

lemma compare_dates_valid:
  assumes a: "isValidDate (property a ''date'')" and b: "isValidDate (property b ''date'')"
  shows "js_positive (compare_dates cfg a b) \<longleftrightarrow> \<not> sort_key_of cfg a \<le> sort_key_of cfg b"
proof -
  from a obtain s1 y1 m1 a1 where
    1: "map_of a ''date'' = Some s1" "new_Date (Some s1) = Num (MakeDay y1 m1 a1 * msPerDay)"
    by (rule valid_date_value)
  from b obtain s2 y2 m2 a2 where
    2: "map_of b ''date'' = Some s2" "new_Date (Some s2) = Num (MakeDay y2 m2 a2 * msPerDay)"
    by (rule valid_date_value)
  show ?thesis
    by (auto simp: compare_dates_def sort_key_of_def time_value_def 1 2 Let_def)
qed

lemma insert_sorted_insort:
  fixes f :: "'a \<Rightarrow> int"
  assumes "\<forall>y \<in> set ys. js_positive (cmp x y) \<longleftrightarrow> \<not> f x \<le> f y"
  shows "insert_sorted cmp x ys = insort_key f x ys"
  using assms by (induction ys) auto

lemma Array_sort_sort_key:
  fixes f :: "'a \<Rightarrow> int"
  assumes "\<forall>x \<in> set xs. \<forall>y \<in> set xs. js_positive (cmp x y) \<longleftrightarrow> \<not> f x \<le> f y"
  shows "Array_sort cmp xs = sort_key f xs"
  using assms
proof (induction xs)
  case Nil
  show ?case by (simp add: Array_sort_def)
next
  case (Cons x xs)
  then have ih: "Array_sort cmp xs = sort_key f xs" by simp
  have "insert_sorted cmp x (sort_key f xs) = insort_key f x (sort_key f xs)"
    by (rule insert_sorted_insort) (use Cons.prems in simp)
  with ih show ?case by (simp add: Array_sort_def)
qed

lemma load_files_valid: "b \<in> set (load_files cfg parse files) \<Longrightarrow> isValidDate (property b ''date'')"
  by (auto simp: load_files_def Let_def split: option.splits sum.splits if_splits)

lemma refresh_sorted_cache:
  assumes "existsSync fs (blogsDir cfg)" "readdirSync fs (blogsDir cfg) = Inr files"
  shows "refresh cfg fs parse now this =
     Inr (this\<lparr>cache := sort_key (sort_key_of cfg) (load_files cfg parse files), lastRefresh := Some now\<rparr>)"
proof -
  have "Array_sort (compare_dates cfg) (load_files cfg parse files)
      = sort_key (sort_key_of cfg) (load_files cfg parse files)"
    by (rule Array_sort_sort_key) (use load_files_valid compare_dates_valid in blast)
  with assms show ?thesis by (simp add: refresh_def refresh_try_def)
qed

lemma refresh_cases:
  obtains (empty) "refresh cfg fs parse now this = Inr (this\<lparr>cache := []\<rparr>)"
      "\<not> (existsSync fs (blogsDir cfg) \<and> (\<exists>files. readdirSync fs (blogsDir cfg) = Inr files))"
  | (loaded) files where "existsSync fs (blogsDir cfg)" "readdirSync fs (blogsDir cfg) = Inr files"
      "refresh cfg fs parse now this =
         Inr (this\<lparr>cache := sort_key (sort_key_of cfg) (load_files cfg parse files), lastRefresh := Some now\<rparr>)"
proof (cases "existsSync fs (blogsDir cfg)")
  case False
  then show ?thesis by (intro empty) (simp_all add: refresh_def refresh_try_def)
next
  case True
  show ?thesis
  proof (cases "readdirSync fs (blogsDir cfg)")
    case (Inl e)
    with True show ?thesis by (intro empty) (simp_all add: refresh_def refresh_try_def)
  next
    case (Inr files)
    from True Inr refresh_sorted_cache [OF True Inr] show ?thesis by (rule loaded)
  qed
qed


lemma filter_by_date_stable:
  "filter (\<lambda>b. map_of b ''date'' = Some d) (sort_key (sort_key_of cfg) xs)
     = filter (\<lambda>b. map_of b ''date'' = Some d) xs"
proof -
  define k where "k = (let t = (case new_Date (Some d) of Num t \<Rightarrow> t | _ \<Rightarrow> 0)
                       in if sortOrder cfg = ''asc'' then t else - t)"
  have same: "map_of b ''date'' = Some d \<Longrightarrow> sort_key_of cfg b = k" for b
    by (simp add: k_def sort_key_of_def time_value_def)
  have narrow: "filter (\<lambda>b. map_of b ''date'' = Some d) ys
      = filter (\<lambda>b. map_of b ''date'' = Some d) (filter (\<lambda>b. sort_key_of cfg b = k) ys)" for ys
    by (induction ys) (auto simp: same)
  have "filter (\<lambda>b. map_of b ''date'' = Some d) (sort_key (sort_key_of cfg) xs)
      = filter (\<lambda>b. map_of b ''date'' = Some d)
          (filter (\<lambda>b. sort_key_of cfg b = k) (sort_key (sort_key_of cfg) xs))"
    by (rule narrow)
  also have "\<dots> = filter (\<lambda>b. map_of b ''date'' = Some d) (filter (\<lambda>b. sort_key_of cfg b = k) xs)"
    by (simp only: sort_key_stable)
  also have "\<dots> = filter (\<lambda>b. map_of b ''date'' = Some d) xs"
    by (rule narrow [symmetric])
  finally show ?thesis .
qed

subsection \<open>The order of date strings\<close>

text \<open>
  The comparison \<^verbatim>\<open>a < b\<close> of two strings: by code units, from the left. On date strings
  it is the order of the dates.
\<close>

fun string_less :: "string \<Rightarrow> string \<Rightarrow> bool" where
  "string_less [] ys = (ys \<noteq> [])"
| "string_less (x # xs) [] = False"
| "string_less (x # xs) (y # ys) = ((of_char x :: nat) < of_char y \<or> (x = y \<and> string_less xs ys))"

lemma foldl_decimal:
  "foldl (\<lambda>acc c. 10 * acc + digit_value c) a cs
     = a * 10 ^ length cs + foldl (\<lambda>acc c. 10 * acc + digit_value c) 0 cs"
proof (induction cs arbitrary: a)
  case Nil
  show ?case by simp
next
  case (Cons c cs)
  let ?f = "\<lambda>acc c. 10 * acc + digit_value c"
  have 1: "foldl ?f (10 * a + digit_value c) cs
      = (10 * a + digit_value c) * 10 ^ length cs + foldl ?f 0 cs"
    by (rule Cons)
  have 2: "foldl ?f (digit_value c) cs = digit_value c * 10 ^ length cs + foldl ?f 0 cs"
    by (rule Cons)
  have "foldl ?f a (c # cs) = foldl ?f (10 * a + digit_value c) cs" by simp
  also have "\<dots> = a * 10 ^ length (c # cs) + foldl ?f (digit_value c) cs"
    unfolding 1 2 by (simp add: algebra_simps)
  also have "foldl ?f (digit_value c) cs = foldl ?f 0 (c # cs)" by simp
  finally show ?case .
qed

lemma decimal_Cons: "decimal (c # cs) = digit_value c * 10 ^ length cs + decimal cs"
  using foldl_decimal [of "digit_value c" cs] by (simp add: decimal_def)

lemma positional:
  fixes a b u v p :: int
  assumes "0 \<le> u" "u < p" "0 \<le> v" "v < p"
  shows "a * p + u < b * p + v \<longleftrightarrow> a < b \<or> (a = b \<and> u < v)"
    and "a * p + u = b * p + v \<longleftrightarrow> a = b \<and> u = v"
proof -
  have p: "0 \<le> p" using assms by simp
  have up: "x < y \<Longrightarrow> x * p + p \<le> y * p" for x y :: int
    using mult_right_mono [of "x + 1" y p] p by (simp add: algebra_simps)
  consider "a < b" | "a = b" | "b < a" by linarith
  then show "a * p + u < b * p + v \<longleftrightarrow> a < b \<or> (a = b \<and> u < v)"
  proof cases
    case 1
    with up [OF 1] assms show ?thesis by simp
  next
    case 2
    then show ?thesis by simp
  next
    case 3
    with up [OF 3] assms show ?thesis by simp
  qed
  consider "a < b" | "a = b" | "b < a" by linarith
  then show "a * p + u = b * p + v \<longleftrightarrow> a = b \<and> u = v"
  proof cases
    case 1
    with up [OF 1] assms show ?thesis by simp
  next
    case 2
    then show ?thesis by simp
  next
    case 3
    with up [OF 3] assms show ?thesis by simp
  qed
qed

lemma digit_strings_order:
  assumes "length xs = length ys" "list_all is_digit xs" "list_all is_digit ys"
  shows "(string_less xs ys \<longleftrightarrow> decimal xs < decimal ys) \<and> (xs = ys \<longleftrightarrow> decimal xs = decimal ys)"
  using assms
proof (induction xs ys rule: list_induct2)
  case Nil
  show ?case by (simp add: decimal_def)
next
  case (Cons x xs y ys)
  then have ih: "string_less xs ys \<longleftrightarrow> decimal xs < decimal ys" "xs = ys \<longleftrightarrow> decimal xs = decimal ys"
    by simp_all
  from Cons.prems have dx: "list_all is_digit xs" and dy: "list_all is_digit ys" by simp_all
  note rx = decimal_range [OF dx] and ry = decimal_range [OF dy]
  have r: "0 \<le> decimal xs" "decimal xs < 10 ^ length ys" "0 \<le> decimal ys" "decimal ys < 10 ^ length ys"
    using rx ry Cons.hyps by simp_all
  have lt: "(of_char x :: nat) < of_char y \<longleftrightarrow> digit_value x < digit_value y"
    by (simp add: digit_value_def)
  have eq: "x = y \<longleftrightarrow> digit_value x = digit_value y"
    by (auto simp: digit_value_def)
  show ?case
    using positional [OF r, of "digit_value x" "digit_value y"]
    by (simp add: decimal_Cons Cons.hyps lt eq ih)
qed

lemma string_less_append:
  "length a = length a' \<Longrightarrow>
   string_less (a @ b) (a' @ b') \<longleftrightarrow> string_less a a' \<or> (a = a' \<and> string_less b b')"
  by (induction a a' rule: list_induct2) auto

lemma date_string_key:
  "date_string s y m d \<Longrightarrow> date_key s = (decimal y, decimal m, decimal d)"
  by (simp add: date_string_def date_key_def)

lemma earlier_string_less:
  assumes 1: "date_string s1 y1 m1 d1" and 2: "date_string s2 y2 m2 d2"
  shows "string_less s1 s2 \<longleftrightarrow> earlier s1 s2"
proof -
  from 1 have s1: "s1 = y1 @ ''-'' @ m1 @ ''-'' @ d1" and l1: "length y1 = 4" "length m1 = 2" "length d1 = 2"
    and g1: "list_all is_digit y1" "list_all is_digit m1" "list_all is_digit d1"
    by (simp_all add: date_string_def)
  from 2 have s2: "s2 = y2 @ ''-'' @ m2 @ ''-'' @ d2" and l2: "length y2 = 4" "length m2 = 2" "length d2 = 2"
    and g2: "list_all is_digit y2" "list_all is_digit m2" "list_all is_digit d2"
    by (simp_all add: date_string_def)
  note oy = digit_strings_order [OF _ g1(1) g2(1)]
    and om = digit_strings_order [OF _ g1(2) g2(2)]
    and od = digit_strings_order [OF _ g1(3) g2(3)]
  have "string_less s1 s2 \<longleftrightarrow>
      string_less y1 y2 \<or> (y1 = y2 \<and> (string_less m1 m2 \<or> (m1 = m2 \<and> string_less d1 d2)))"
    unfolding s1 s2
    by (simp add: string_less_append l1 l2)
  also have "\<dots> \<longleftrightarrow> earlier s1 s2"
    using oy om od
    by (simp add: earlier_def date_string_key [OF 1] date_string_key [OF 2] l1 l2)
  finally show ?thesis .
qed

text \<open>
  Claim C4: \<open>refresh\<close> returns normally, and the collection it leaves holds records with
  valid dates only, sorted by date: of two records with dates \<open>d1\<close> before \<open>d2\<close>, the one dated
  \<open>d1\<close> comes first when the order is \<^verbatim>\<open>"asc"\<close> and the one dated \<open>d2\<close> comes first otherwise.
  Records with the same date stay in the order in which the directory listing gave them.
  (The dates of the collection are date strings, on which \<open>earlier\<close> is the order of the
  strings, by \<open>earlier_string_less\<close>.)
\<close>

theorem refresh_sorted_by_date:
  "\<exists>this'.
     refresh cfg fs parse now this = Inr this'
     \<and> (\<forall>b \<in> set (cache this'). isValidDate (property b ''date''))
     \<and> (\<forall>i j d1 d2.
           i < length (cache this') \<and> j < length (cache this')
           \<and> map_of (cache this' ! i) ''date'' = Some d1
           \<and> map_of (cache this' ! j) ''date'' = Some d2 \<and> earlier d1 d2
           \<longrightarrow> (if sortOrder cfg = ''asc'' then i < j else j < i))
     \<and> (\<forall>files d.
           existsSync fs (blogsDir cfg) \<and> readdirSync fs (blogsDir cfg) = Inr files
           \<longrightarrow> filter (\<lambda>b. map_of b ''date'' = Some d) (cache this')
               = filter (\<lambda>b. map_of b ''date'' = Some d) (load_files cfg parse files))"
proof (cases rule: refresh_cases [of cfg fs parse now this])
  case empty
  then show ?thesis by auto
next
  case (loaded files)
  let ?L = "load_files cfg parse files"
  let ?ys = "sort_key (sort_key_of cfg) ?L"
  let ?this' = "this\<lparr>cache := ?ys, lastRefresh := Some now\<rparr>"
  have c: "cache ?this' = ?ys" by simp
  have valid: "isValidDate (property b ''date'')" if "b \<in> set ?ys" for b
    using that load_files_valid [of b cfg parse files] by simp
  have sorted: "sorted (map (sort_key_of cfg) ?ys)" by simp
  have order: "if sortOrder cfg = ''asc'' then i < j else j < i"
    if i: "i < length ?ys" and j: "j < length ?ys"
      and d1: "map_of (?ys ! i) ''date'' = Some d1" and d2: "map_of (?ys ! j) ''date'' = Some d2"
      and e: "earlier d1 d2" for i j d1 d2
  proof -
    have mi: "?ys ! i \<in> set ?ys" and mj: "?ys ! j \<in> set ?ys"
      using i j by (simp_all only: nth_mem)
    have "isValidDate (property (?ys ! i) ''date'')" "isValidDate (property (?ys ! j) ''date'')"
      using valid [OF mi] valid [OF mj] by blast+
    then have lt: "time_value (?ys ! i) < time_value (?ys ! j)"
      using d1 d2 e by (rule earlier_time_value)
    have mono: "sort_key_of cfg (?ys ! a) \<le> sort_key_of cfg (?ys ! b)"
      if "a \<le> b" "b < length ?ys" for a b
      using sorted_nth_mono [OF sorted, of a b] that by simp
    show ?thesis
    proof (cases "sortOrder cfg = ''asc''")
      case True
      have "i < j"
      proof (rule ccontr)
        assume "\<not> i < j"
        then have "j \<le> i" by simp
        from mono [OF this i] lt True show False by (simp add: sort_key_of_def)
      qed
      with True show ?thesis by simp
    next
      case False
      have "j < i"
      proof (rule ccontr)
        assume "\<not> j < i"
        then have "i \<le> j" by simp
        from mono [OF this j] lt False show False by (simp add: sort_key_of_def)
      qed
      with False show ?thesis by simp
    qed
  qed
  have stable: "filter (\<lambda>b. map_of b ''date'' = Some d) ?ys
      = filter (\<lambda>b. map_of b ''date'' = Some d) (load_files cfg parse files')"
    if "readdirSync fs (blogsDir cfg) = Inr files'" for files' d
  proof -
    from that loaded(2) have "files' = files" by simp
    then show ?thesis by (simp only: filter_by_date_stable)
  qed
  show ?thesis
  proof (intro exI [of _ ?this'] conjI)
    show "refresh cfg fs parse now this = Inr ?this'" by (rule loaded(3))
    show "\<forall>b \<in> set (cache ?this'). isValidDate (property b ''date'')"
      unfolding c using valid by blast
    show "\<forall>i j d1 d2.
           i < length (cache ?this') \<and> j < length (cache ?this')
           \<and> map_of (cache ?this' ! i) ''date'' = Some d1
           \<and> map_of (cache ?this' ! j) ''date'' = Some d2 \<and> earlier d1 d2
           \<longrightarrow> (if sortOrder cfg = ''asc'' then i < j else j < i)"
      unfolding c using order by blast
    show "\<forall>files d.
           existsSync fs (blogsDir cfg) \<and> readdirSync fs (blogsDir cfg) = Inr files
           \<longrightarrow> filter (\<lambda>b. map_of b ''date'' = Some d) (cache ?this')
               = filter (\<lambda>b. map_of b ''date'' = Some d) (load_files cfg parse files)"
      unfolding c using stable by blast
  qed
qed


theorem refresh_sorted_by_date_witness:
  "refresh fixture_cfg fixture_fs (parseFile fixture_cfg fixture_fs) 7 empty_cache = Inr loaded_cache
   \<and> cache loaded_cache = [post_a, post_c, post_d]
   \<and> map_of (cache loaded_cache ! 1) ''date'' = Some ''2025-01-10''
   \<and> map_of (cache loaded_cache ! 0) ''date'' = Some ''2025-01-20''
   \<and> earlier ''2025-01-10'' ''2025-01-20''
   \<and> sortOrder fixture_cfg = ''desc''
   \<and> (if sortOrder fixture_cfg = ''asc'' then (1::nat) < 0 else (0::nat) < 1)
   \<and> existsSync fixture_fs (blogsDir fixture_cfg)
   \<and> readdirSync fixture_fs (blogsDir fixture_cfg) = Inr [''a.html'', ''b.txt'', ''c.htm'', ''d.html'']
   \<and> filter (\<lambda>b. map_of b ''date'' = Some ''2025-01-10'') (cache loaded_cache)
       = filter (\<lambda>b. map_of b ''date'' = Some ''2025-01-10'')
           (load_files fixture_cfg (parseFile fixture_cfg fixture_fs) [''a.html'', ''b.txt'', ''c.htm'', ''d.html''])
   \<and> filter (\<lambda>b. map_of b ''date'' = Some ''2025-01-10'') (cache loaded_cache) = [post_c, post_d]"
proof -
  let ?parse = "parseFile fixture_cfg fixture_fs"
  from refresh_sorted_by_date [of fixture_cfg fixture_fs ?parse 7 empty_cache]
  obtain this' where
    r: "refresh fixture_cfg fixture_fs ?parse 7 empty_cache = Inr this'"
    and ord: "\<forall>i j d1 d2.
           i < length (cache this') \<and> j < length (cache this')
           \<and> map_of (cache this' ! i) ''date'' = Some d1
           \<and> map_of (cache this' ! j) ''date'' = Some d2 \<and> earlier d1 d2
           \<longrightarrow> (if sortOrder fixture_cfg = ''asc'' then i < j else j < i)"
    and stab: "\<forall>files d.
           existsSync fixture_fs (blogsDir fixture_cfg) \<and> readdirSync fixture_fs (blogsDir fixture_cfg) = Inr files
           \<longrightarrow> filter (\<lambda>b. map_of b ''date'' = Some d) (cache this')
               = filter (\<lambda>b. map_of b ''date'' = Some d) (load_files fixture_cfg ?parse files)"
    by (elim exE conjE)
  from r have t: "this' = loaded_cache" by (simp add: fixture_refresh)
  have c: "cache loaded_cache = [post_a, post_c, post_d]" by (simp add: loaded_cache_def)
  have d: "map_of (cache loaded_cache ! 1) ''date'' = Some ''2025-01-10''"
    "map_of (cache loaded_cache ! 0) ''date'' = Some ''2025-01-20''"
    by (simp_all add: c post_a_def post_c_def)
  have e: "earlier ''2025-01-10'' ''2025-01-20''" by code_simp
  have o: "sortOrder fixture_cfg = ''desc''" by (simp add: fixture_cfg_def)
  have fsys: "existsSync fixture_fs (blogsDir fixture_cfg)"
    "readdirSync fixture_fs (blogsDir fixture_cfg) = Inr [''a.html'', ''b.txt'', ''c.htm'', ''d.html'']"
    by (simp_all add: fixture_fs_def fixture_cfg_def)
  have 1: "if sortOrder fixture_cfg = ''asc'' then (1::nat) < 0 else (0::nat) < 1"
    using ord [unfolded t, rule_format, of 1 0 "''2025-01-10''" "''2025-01-20''"] d e
    by (simp add: c)
  have 2: "filter (\<lambda>b. map_of b ''date'' = Some ''2025-01-10'') (cache loaded_cache)
       = filter (\<lambda>b. map_of b ''date'' = Some ''2025-01-10'')
           (load_files fixture_cfg ?parse [''a.html'', ''b.txt'', ''c.htm'', ''d.html''])"
    using stab [unfolded t, rule_format, of "[''a.html'', ''b.txt'', ''c.htm'', ''d.html'']" "''2025-01-10''"] fsys
    by blast
  have 3: "filter (\<lambda>b. map_of b ''date'' = Some ''2025-01-10'') (cache loaded_cache) = [post_c, post_d]"
    by (simp add: c post_a_def post_c_def post_d_def)
  from fixture_refresh c d e o 1 fsys 2 3 show ?thesis by blast
qed

end
